theory Spec2Isabelle
  imports Main "HOL-Library.Multiset"
begin

section \<open>Data model of \<open>list.h\<close>\<close>

text \<open>
  \<open>list.h\<close> is a set of C macros over intrusive singly-linked lists: every element
  record embeds a link (\<open>LIST_LINK\<close>, a struct with the one field \<open>_list_nxt\<close>) and a list
  is a handle (\<open>LIST_TYPE\<close>, a struct with the one field \<open>_list_fst\<close>).

  Elements are identified by their address, a value of the type variable \<open>'a\<close>. A C
  pointer to an element is \<open>NULL\<close> or \<open>Ptr a\<close>. The link fields of all elements form
  the map \<open>'a links\<close>: \<open>h a\<close> is \<open>a->link._list_nxt\<close>. Dereferencing \<open>NULL\<close> is the
  error \<open>NullDeref\<close>. The counters of type \<open>intmax_t\<close> are integers: they count
  elements of a chain or, for the run length of the sort, stay below twice the length
  of the chain, so none of them leaves the range of \<open>intmax_t\<close>.
\<close>

datatype 'a ptr = NULL | Ptr 'a

datatype error = NullDeref

type_synonym 'a links = "'a \<Rightarrow> 'a ptr"

record 'a list_type =
  list_fst :: "'a ptr"

text \<open>\<open>_LIST_NXT(elem, link)\<close> read through a pointer that may be \<open>NULL\<close>.\<close>

definition LIST_NXT :: "'a links \<Rightarrow> 'a ptr \<Rightarrow> error + 'a ptr" where
  "LIST_NXT h p = (case p of NULL \<Rightarrow> Inl NullDeref | Ptr a \<Rightarrow> Inr (h a))"

text \<open>
  The callbacks. A comparator \<open>func(a, b, ...)\<close> receives two element pointers and
  returns an \<open>int\<close>; a predicate receives one element. The deallocation function
  \<open>clean\<close> is optional (\<open>clean != NULL\<close>); it receives the removed element and may do
  anything to the memory, so it is a transformer of the world: the link fields together
  with a state \<open>'u\<close> of the caller.
\<close>

type_synonym 'a comparator = "'a ptr \<Rightarrow> 'a ptr \<Rightarrow> int"

record ('a, 'u) world =
  links :: "'a links"
  user :: 'u

type_synonym ('a, 'u) cleaner = "('a \<Rightarrow> ('a, 'u) world \<Rightarrow> ('a, 'u) world) option"

definition call_clean :: "('a, 'u) cleaner \<Rightarrow> 'a \<Rightarrow> ('a, 'u) world \<Rightarrow> ('a, 'u) world" where
  "call_clean clean e w = (case clean of None \<Rightarrow> w | Some c \<Rightarrow> c e w)"

text \<open>
  A cleanup callback that only records its calls: the element it received and the value
  of that element's link field at the moment of the call.
\<close>

definition log_clean :: "('a, ('a \<times> 'a ptr) list) cleaner" where
  "log_clean = Some (\<lambda>e w. w\<lparr>user := user w @ [(e, links w e)]\<rparr>)"

section \<open>Navigation\<close>

definition LIST_FIRST :: "'a list_type \<Rightarrow> 'a ptr" where
  "LIST_FIRST list = list_fst list"

text \<open>
  \<open>LIST_LAST\<close>: the loop \<open>while (_LIST_NXT(_list_e, link) != NULL)\<close> runs on an element
  that is not \<open>NULL\<close>. A loop that does not return has the value \<open>None\<close>.
\<close>

partial_function (option) last_loop :: "'a links \<Rightarrow> 'a \<Rightarrow> 'a option" where
  "last_loop h e = (case h e of NULL \<Rightarrow> Some e | Ptr e' \<Rightarrow> last_loop h e')"

declare last_loop.simps [code]

definition LIST_LAST :: "'a links \<Rightarrow> 'a list_type \<Rightarrow> 'a ptr option" where
  "LIST_LAST h list =
     (case list_fst list of
        NULL \<Rightarrow> Some NULL
      | Ptr e \<Rightarrow> map_option Ptr (last_loop h e))"

partial_function (option) find_loop :: "('a \<Rightarrow> bool) \<Rightarrow> 'a links \<Rightarrow> 'a ptr \<Rightarrow> 'a ptr option" where
  "find_loop func h e =
     (case e of
        NULL \<Rightarrow> Some NULL
      | Ptr a \<Rightarrow> if func a then Some e else find_loop func h (h a))"

declare find_loop.simps [code]

definition LIST_FIND :: "('a \<Rightarrow> bool) \<Rightarrow> 'a links \<Rightarrow> 'a list_type \<Rightarrow> 'a ptr option" where
  "LIST_FIND func h list = find_loop func h (list_fst list)"

partial_function (option) length_loop :: "'a links \<Rightarrow> 'a ptr \<Rightarrow> int \<Rightarrow> int option" where
  "length_loop h e out =
     (case e of NULL \<Rightarrow> Some out | Ptr a \<Rightarrow> length_loop h (h a) (out + 1))"

declare length_loop.simps [code]

definition LIST_LENGTH :: "'a links \<Rightarrow> 'a list_type \<Rightarrow> int option" where
  "LIST_LENGTH h list = length_loop h (list_fst list) 0"

text \<open>
  \<open>LIST_MAX\<close> and \<open>LIST_MIN\<close>: \<open>while (true)\<close> with the exit test after the step, so the
  first element is compared with itself.
\<close>

partial_function (option) max_loop :: "'a comparator \<Rightarrow> 'a links \<Rightarrow> 'a ptr \<Rightarrow> 'a \<Rightarrow> 'a ptr option" where
  "max_loop func h out e =
     (let out' = (if func out (Ptr e) < 1 then Ptr e else out)
      in case h e of NULL \<Rightarrow> Some out' | Ptr e' \<Rightarrow> max_loop func h out' e')"

declare max_loop.simps [code]

definition LIST_MAX :: "'a comparator \<Rightarrow> 'a links \<Rightarrow> 'a list_type \<Rightarrow> 'a ptr option" where
  "LIST_MAX func h list =
     (case list_fst list of NULL \<Rightarrow> Some NULL | Ptr e \<Rightarrow> max_loop func h (Ptr e) e)"

partial_function (option) min_loop :: "'a comparator \<Rightarrow> 'a links \<Rightarrow> 'a ptr \<Rightarrow> 'a \<Rightarrow> 'a ptr option" where
  "min_loop func h out e =
     (let out' = (if func out (Ptr e) > - 1 then Ptr e else out)
      in case h e of NULL \<Rightarrow> Some out' | Ptr e' \<Rightarrow> min_loop func h out' e')"

declare min_loop.simps [code]

definition LIST_MIN :: "'a comparator \<Rightarrow> 'a links \<Rightarrow> 'a list_type \<Rightarrow> 'a ptr option" where
  "LIST_MIN func h list =
     (case list_fst list of NULL \<Rightarrow> Some NULL | Ptr e \<Rightarrow> min_loop func h (Ptr e) e)"

section \<open>Mutation\<close>

definition LIST_POP ::
  "('a, 'u) cleaner \<Rightarrow> ('a, 'u) world \<Rightarrow> 'a list_type \<Rightarrow> ('a, 'u) world \<times> 'a list_type" where
  "LIST_POP clean w list =
     (case list_fst list of
        NULL \<Rightarrow> (w, list)
      | Ptr e \<Rightarrow> (call_clean clean e w, list\<lparr>list_fst := links w e\<rparr>))"

definition LIST_REMOVE ::
  "('a, 'u) cleaner \<Rightarrow> ('a, 'u) world \<Rightarrow> 'a ptr \<Rightarrow> error + ('a, 'u) world" where
  "LIST_REMOVE clean w elem =
     (case elem of
        NULL \<Rightarrow> Inl NullDeref
      | Ptr a \<Rightarrow>
          (case links w a of
             NULL \<Rightarrow> Inr w
           | Ptr e \<Rightarrow> Inr (call_clean clean e (w\<lparr>links := (links w)(a := links w e)\<rparr>))))"

text \<open>\<open>LIST_DROP\<close>: the \<open>for\<close> loop over \<open>_list_i\<close>, left early once the list is empty.\<close>

function drop_loop ::
  "('a, 'u) cleaner \<Rightarrow> int \<Rightarrow> int \<Rightarrow> ('a, 'u) world \<times> 'a list_type \<Rightarrow> ('a, 'u) world \<times> 'a list_type" where
  "drop_loop clean n i wl =
     (if i < n then
        (let wl' = LIST_POP clean (fst wl) (snd wl)
         in if list_fst (snd wl') = NULL then wl' else drop_loop clean n (i + 1) wl')
      else wl)"
  by pat_completeness auto
termination
  by (relation "measure (\<lambda>(clean, n, i, wl). nat (n - i))") auto

definition LIST_DROP ::
  "('a, 'u) cleaner \<Rightarrow> int \<Rightarrow> ('a, 'u) world \<Rightarrow> 'a list_type \<Rightarrow> ('a, 'u) world \<times> 'a list_type" where
  "LIST_DROP clean n w list = drop_loop clean n 0 (w, list)"

text \<open>
  \<open>LIST_TAKE\<close>: the first loop walks \<open>_list_f\<close> forward while \<open>_list_i < n\<close>, starting at
  \<open>_list_i = 1\<close>; the second reads \<open>_LIST_NXT(_list_f, link)\<close> with no test of \<open>_list_f\<close>.
\<close>

function take_walk :: "'a links \<Rightarrow> int \<Rightarrow> 'a ptr \<Rightarrow> int \<Rightarrow> 'a ptr" where
  "take_walk h n f i =
     (case f of
        NULL \<Rightarrow> f
      | Ptr a \<Rightarrow> if i < n then take_walk h n (h a) (i + 1) else f)"
  by pat_completeness auto
termination
  by (relation "measure (\<lambda>(h, n, f, i). nat (n - i))") auto

partial_function (option) take_rest ::
  "('a, 'u) cleaner \<Rightarrow> ('a, 'u) world \<Rightarrow> 'a ptr \<Rightarrow> (error + ('a, 'u) world) option" where
  "take_rest clean w f =
     (case LIST_NXT (links w) f of
        Inl e \<Rightarrow> Some (Inl e)
      | Inr NULL \<Rightarrow> Some (Inr w)
      | Inr (Ptr b) \<Rightarrow>
          (case LIST_REMOVE clean w f of
             Inl e \<Rightarrow> Some (Inl e)
           | Inr w' \<Rightarrow> take_rest clean w' f))"

declare take_rest.simps [code]

definition LIST_TAKE ::
  "('a, 'u) cleaner \<Rightarrow> int \<Rightarrow> ('a, 'u) world \<Rightarrow> 'a list_type \<Rightarrow> (error + ('a, 'u) world) option" where
  "LIST_TAKE clean n w list = take_rest clean w (take_walk (links w) n (list_fst list) 1)"

text \<open>
  \<open>LIST_APPEND\<close>. The two handles are two objects, passed and returned by value.
\<close>

definition LIST_APPEND ::
  "'a links \<Rightarrow> 'a list_type \<Rightarrow> 'a list_type \<Rightarrow> ('a links \<times> 'a list_type \<times> 'a list_type) option" where
  "LIST_APPEND h list1 list2 =
     (let g = list_fst list2; list2' = list2\<lparr>list_fst := NULL\<rparr>
      in Option.bind (LIST_LAST h list1)
           (\<lambda>f. case f of
                   NULL \<Rightarrow> Some (h, list1\<lparr>list_fst := g\<rparr>, list2')
                 | Ptr a \<Rightarrow> Some (h(a := g), list1, list2')))"

section \<open>Algorithms\<close>

subsection \<open>\<open>LIST_UNIQUE\<close>\<close>

partial_function (option) unique_inner ::
  "'a comparator \<Rightarrow> ('a, 'u) cleaner \<Rightarrow> 'a ptr \<Rightarrow> ('a, 'u) world \<Rightarrow> 'a ptr
     \<Rightarrow> (error + ('a, 'u) world) option" where
  "unique_inner func clean f w g =
     (case LIST_NXT (links w) g of
        Inl e \<Rightarrow> Some (Inl e)
      | Inr NULL \<Rightarrow> Some (Inr w)
      | Inr (Ptr b) \<Rightarrow>
          (case (if func f (Ptr b) = 0 then LIST_REMOVE clean w g else Inr w) of
             Inl e \<Rightarrow> Some (Inl e)
           | Inr w' \<Rightarrow>
               (case LIST_NXT (links w') g of
                  Inl e \<Rightarrow> Some (Inl e)
                | Inr g' \<Rightarrow> unique_inner func clean f w' g')))"

declare unique_inner.simps [code]

partial_function (option) unique_outer ::
  "'a comparator \<Rightarrow> ('a, 'u) cleaner \<Rightarrow> ('a, 'u) world \<Rightarrow> 'a ptr
     \<Rightarrow> (error + ('a, 'u) world) option" where
  "unique_outer func clean w f =
     (case f of
        NULL \<Rightarrow> Some (Inr w)
      | Ptr a \<Rightarrow>
          Option.bind (unique_inner func clean f w f)
            (\<lambda>res. case res of
                     Inl e \<Rightarrow> Some (Inl e)
                   | Inr w' \<Rightarrow> unique_outer func clean w' (links w' a)))"

declare unique_outer.simps [code]

definition LIST_UNIQUE ::
  "'a comparator \<Rightarrow> ('a, 'u) cleaner \<Rightarrow> ('a, 'u) world \<Rightarrow> 'a list_type
     \<Rightarrow> (error + ('a, 'u) world) option" where
  "LIST_UNIQUE func clean w list = unique_outer func clean w (list_fst list)"

subsection \<open>\<open>LIST_SORT\<close>\<close>

text \<open>
  The local variables of \<open>LIST_SORT\<close>, with the link fields. \<open>list_gl\<close> is the run
  length of the pass, \<open>list_nm\<close> the number of merges of the pass, \<open>list_ls\<close> and
  \<open>list_rs\<close> what is left of the left and of the right run, \<open>list_l\<close> and \<open>list_r\<close> the
  heads of the two runs, \<open>list_t\<close> the tail of the output, \<open>list_n\<close> the element chosen
  next and \<open>list_x\<close> the head of the output.
\<close>

record 'a sort_vars =
  hp :: "'a links"
  list_gl :: int
  list_nm :: int
  list_ls :: int
  list_rs :: int
  list_l :: "'a ptr"
  list_r :: "'a ptr"
  list_t :: "'a ptr"
  list_n :: "'a ptr"
  list_x :: "'a ptr"

text \<open>The loop that walks \<open>_list_r\<close> over the left run, counting it in \<open>_list_ls\<close>.\<close>

function sort_run :: "'a sort_vars \<Rightarrow> 'a sort_vars" where
  "sort_run s =
     (case list_r s of
        NULL \<Rightarrow> s
      | Ptr a \<Rightarrow>
          if list_ls s < list_gl s
          then sort_run (s\<lparr>list_ls := list_ls s + 1, list_r := hp s a\<rparr>)
          else s)"
  by pat_completeness auto
termination
  by (relation "measure (\<lambda>s. nat (list_gl s - list_ls s))") auto

text \<open>The three branches of the merge loop's body choose \<open>_list_n\<close>.\<close>

definition sort_take_l :: "'a sort_vars \<Rightarrow> error + 'a sort_vars" where
  "sort_take_l s =
     (case list_l s of
        NULL \<Rightarrow> Inl NullDeref
      | Ptr a \<Rightarrow> Inr (s\<lparr>list_n := list_l s, list_l := hp s a, list_ls := list_ls s - 1\<rparr>))"

definition sort_take_r :: "'a sort_vars \<Rightarrow> error + 'a sort_vars" where
  "sort_take_r s =
     (case list_r s of
        NULL \<Rightarrow> Inl NullDeref
      | Ptr b \<Rightarrow> Inr (s\<lparr>list_n := list_r s, list_r := hp s b, list_rs := list_rs s - 1\<rparr>))"

definition sort_choose :: "'a comparator \<Rightarrow> 'a sort_vars \<Rightarrow> error + 'a sort_vars" where
  "sort_choose func s =
     (if list_ls s = 0 then sort_take_r s
      else if list_rs s = 0 \<or> list_r s = NULL \<or> func (list_l s) (list_r s) < 0
      then sort_take_l s
      else sort_take_r s)"

text \<open>The end of the body links \<open>_list_n\<close> behind the tail \<open>_list_t\<close>.\<close>

definition sort_link :: "'a sort_vars \<Rightarrow> 'a sort_vars" where
  "sort_link s =
     (case list_t s of
        NULL \<Rightarrow> s\<lparr>list_x := list_n s, list_t := list_n s\<rparr>
      | Ptr a \<Rightarrow> s\<lparr>hp := (hp s)(a := list_n s), list_t := list_n s\<rparr>)"

definition sort_merge_step :: "'a comparator \<Rightarrow> 'a sort_vars \<Rightarrow> error + 'a sort_vars" where
  "sort_merge_step func s =
     (case sort_choose func s of Inl e \<Rightarrow> Inl e | Inr s' \<Rightarrow> Inr (sort_link s'))"

partial_function (option) sort_merge ::
  "'a comparator \<Rightarrow> 'a sort_vars \<Rightarrow> (error + 'a sort_vars) option" where
  "sort_merge func s =
     (if list_ls s > 0 \<or> (list_rs s > 0 \<and> list_r s \<noteq> NULL) then
        (case sort_merge_step func s of
           Inl e \<Rightarrow> Some (Inl e)
         | Inr s' \<Rightarrow> sort_merge func s')
      else Some (Inr s))"

declare sort_merge.simps [code]

text \<open>The loop \<open>while (_list_l != NULL)\<close>: one merge of two adjacent runs per iteration.\<close>

partial_function (option) sort_pairs ::
  "'a comparator \<Rightarrow> 'a sort_vars \<Rightarrow> (error + 'a sort_vars) option" where
  "sort_pairs func s =
     (case list_l s of
        NULL \<Rightarrow> Some (Inr s)
      | Ptr a \<Rightarrow>
          Option.bind
            (sort_merge func
               (sort_run (s\<lparr>list_nm := list_nm s + 1, list_r := list_l s,
                            list_ls := 0, list_rs := list_gl s\<rparr>)))
            (\<lambda>res. case res of
                     Inl e \<Rightarrow> Some (Inl e)
                   | Inr s' \<Rightarrow> sort_pairs func (s'\<lparr>list_l := list_r s'\<rparr>)))"

declare sort_pairs.simps [code]

text \<open>The loop \<open>do ... while (_list_nm > 1)\<close>: one pass per iteration.\<close>

partial_function (option) sort_passes ::
  "'a comparator \<Rightarrow> 'a sort_vars \<Rightarrow> (error + 'a sort_vars) option" where
  "sort_passes func s =
     Option.bind
       (sort_pairs func (s\<lparr>list_nm := 0, list_l := list_x s, list_t := NULL, list_x := NULL\<rparr>))
       (\<lambda>res. case res of
                Inl e \<Rightarrow> Some (Inl e)
              | Inr s1 \<Rightarrow>
                  (case list_t s1 of
                     NULL \<Rightarrow> Some (Inl NullDeref)
                   | Ptr a \<Rightarrow>
                       (let s2 = s1\<lparr>hp := (hp s1)(a := NULL), list_gl := list_gl s1 * 2\<rparr>
                        in if list_nm s2 > 1 then sort_passes func s2 else Some (Inr s2))))"

declare sort_passes.simps [code]

text \<open>
  \<open>LIST_SORT\<close>. The locals are not initialised by their declaration; each is assigned
  before it is read, so the values given to them here are never used.
\<close>

definition LIST_SORT ::
  "'a comparator \<Rightarrow> 'a links \<Rightarrow> 'a list_type \<Rightarrow> (error + 'a links \<times> 'a list_type) option" where
  "LIST_SORT func h list =
     (case list_fst list of
        NULL \<Rightarrow> Some (Inr (h, list))
      | Ptr a \<Rightarrow>
          (case h a of
             NULL \<Rightarrow> Some (Inr (h, list))
           | Ptr b \<Rightarrow>
               Option.bind
                 (sort_passes func
                    \<lparr>hp = h, list_gl = 1, list_nm = 0, list_ls = 0, list_rs = 0,
                     list_l = NULL, list_r = NULL, list_t = NULL, list_n = NULL,
                     list_x = Ptr a\<rparr>)
                 (\<lambda>res. case res of
                          Inl e \<Rightarrow> Some (Inl e)
                        | Inr s \<Rightarrow> Some (Inr (hp s, list\<lparr>list_fst := list_x s\<rparr>)))))"

section \<open>Chains\<close>

text \<open>
  \<open>chain h p xs\<close>: following the links from \<open>p\<close> visits exactly the elements \<open>xs\<close>, in
  this order, and then reaches \<open>NULL\<close>. This is the finite, \<open>NULL\<close>-terminated chain of
  the data model.
\<close>

fun chain :: "'a links \<Rightarrow> 'a ptr \<Rightarrow> 'a list \<Rightarrow> bool" where
  "chain h p [] = (p = NULL)"
| "chain h p (a # as) = (p = Ptr a \<and> chain h (h a) as)"

text \<open>
  The chain \<open>xs\<close> laid out in memory, for concrete inputs: every element of \<open>xs\<close>
  links to the one after it, the last one and every other address to \<open>NULL\<close>.
\<close>

fun links_of :: "'a list \<Rightarrow> 'a links" where
  "links_of [] = (\<lambda>_. NULL)"
| "links_of [a] = (\<lambda>_. NULL)"
| "links_of (a # b # bs) = (links_of (b # bs))(a := Ptr b)"

text \<open>A comparator that compares the integer keys of two elements.\<close>

definition key_cmp :: "('a \<Rightarrow> int) \<Rightarrow> 'a comparator" where
  "key_cmp k p q =
     (case p of NULL \<Rightarrow> 0 | Ptr a \<Rightarrow> (case q of NULL \<Rightarrow> 0 | Ptr b \<Rightarrow> k a - k b))"

text \<open>Every adjacent pair \<open>(a, b)\<close> of the list has \<open>func(a, b) <= 0\<close>.\<close>

fun nondecreasing :: "'a comparator \<Rightarrow> 'a list \<Rightarrow> bool" where
  "nondecreasing func [] = True"
| "nondecreasing func [a] = True"
| "nondecreasing func (a # b # bs) = (func (Ptr a) (Ptr b) \<le> 0 \<and> nondecreasing func (b # bs))"

section \<open>Abstractions used in the statements and proofs\<close>

text \<open>
  The contract of a comparator on the elements \<open>xs\<close>: \<open>func(a, b) < 0\<close> exactly when
  \<open>func(b, a) > 0\<close>, and \<open>func(a, b) <= 0\<close> is transitive. Under it \<open>func(a, b) <= 0\<close>
  is a total preorder on \<open>xs\<close>, a negative result says that \<open>a\<close> is strictly before
  \<open>b\<close> and zero that the two are equivalent.
\<close>

definition cmp_contract :: "'a comparator \<Rightarrow> 'a list \<Rightarrow> bool" where
  "cmp_contract func xs =
     ((\<forall>a\<in>set xs. \<forall>b\<in>set xs. (func (Ptr a) (Ptr b) < 0) = (0 < func (Ptr b) (Ptr a)))
      \<and> (\<forall>a\<in>set xs. \<forall>b\<in>set xs. \<forall>c\<in>set xs.
            func (Ptr a) (Ptr b) \<le> 0 \<and> func (Ptr b) (Ptr c) \<le> 0 \<longrightarrow> func (Ptr a) (Ptr c) \<le> 0))"

text \<open>
  The elements of \<open>xs\<close> tied for the maximum (every element of \<open>xs\<close> is before them or
  equivalent to them) and those tied for the minimum, in list order; and the scans of
  \<open>LIST_MAX\<close> and \<open>LIST_MIN\<close> as functions on the list of elements still to visit.
  \<open>flip_cmp\<close> reverses a comparator.
\<close>

definition best_max :: "'a comparator \<Rightarrow> 'a list \<Rightarrow> 'a list" where
  "best_max func xs = filter (\<lambda>y. \<forall>z\<in>set xs. func (Ptr z) (Ptr y) \<le> 0) xs"

definition best_min :: "'a comparator \<Rightarrow> 'a list \<Rightarrow> 'a list" where
  "best_min func xs = filter (\<lambda>y. \<forall>z\<in>set xs. func (Ptr y) (Ptr z) \<le> 0) xs"

fun scan_max :: "'a comparator \<Rightarrow> 'a ptr \<Rightarrow> 'a list \<Rightarrow> 'a ptr" where
  "scan_max func out [] = out"
| "scan_max func out (e # es) = scan_max func (if func out (Ptr e) < 1 then Ptr e else out) es"

fun scan_min :: "'a comparator \<Rightarrow> 'a ptr \<Rightarrow> 'a list \<Rightarrow> 'a ptr" where
  "scan_min func out [] = out"
| "scan_min func out (e # es) = scan_min func (if func out (Ptr e) > - 1 then Ptr e else out) es"

definition flip_cmp :: "'a comparator \<Rightarrow> 'a comparator" where
  "flip_cmp func p q = - func p q"

text \<open>
  \<open>path h p xs q\<close>: following the links from \<open>p\<close> visits \<open>xs\<close> and arrives at \<open>q\<close>.
  \<open>out_seg h x D t\<close>: the output of a pass so far is \<open>D\<close>, linked from its head \<open>x\<close> up to
  its tail \<open>t\<close>, whose own link is not yet written.
\<close>

fun path :: "'a links \<Rightarrow> 'a ptr \<Rightarrow> 'a list \<Rightarrow> 'a ptr \<Rightarrow> bool" where
  "path h p [] q = (p = q)"
| "path h p (a # as) q = (p = Ptr a \<and> path h (h a) as q)"

definition out_seg :: "'a links \<Rightarrow> 'a ptr \<Rightarrow> 'a list \<Rightarrow> 'a ptr \<Rightarrow> bool" where
  "out_seg h x D t =
     (if D = [] then x = NULL \<and> t = NULL
      else t = Ptr (last D) \<and> path h x (butlast D) (Ptr (last D)))"

text \<open>
  The merge of two runs as a function on lists, with the tie-break of the macro, and the
  invariant of the merge loop: \<open>D\<close> is the output so far, \<open>L\<close> what is left of the left
  run, \<open>Rr\<close> what is left of the right run and \<open>Rest\<close> the chain behind it.
\<close>

fun run_merge :: "'a comparator \<Rightarrow> 'a list \<Rightarrow> 'a list \<Rightarrow> 'a list" where
  "run_merge func [] R = R"
| "run_merge func (a # L) [] = a # L"
| "run_merge func (a # L) (b # R) =
     (if func (Ptr a) (Ptr b) < 0 then a # run_merge func L (b # R)
      else b # run_merge func (a # L) R)"

definition merge_inv :: "'a sort_vars \<Rightarrow> 'a list \<Rightarrow> 'a list \<Rightarrow> 'a list \<Rightarrow> 'a list \<Rightarrow> bool" where
  "merge_inv s D L Rr Rest =
     (out_seg (hp s) (list_x s) D (list_t s)
      \<and> (\<exists>q. path (hp s) (list_l s) L q)
      \<and> chain (hp s) (list_r s) (Rr @ Rest)
      \<and> distinct (D @ L @ Rr @ Rest)
      \<and> list_ls s = int (length L)
      \<and> (list_rs s = int (length Rr) \<or> (Rest = [] \<and> int (length Rr) \<le> list_rs s)))"

text \<open>
  One pass with run length \<open>g\<close> merges the runs of \<open>R\<close> two by two; \<open>merges\<close> counts the
  merges of a pass, which is \<open>_list_nm\<close>. The passes double \<open>g\<close> while \<open>2 * g\<close> is less than
  the number \<open>n\<close> of elements; \<open>sort_spec\<close> is the whole sort as a function on lists.
\<close>

function pass_merge :: "'a comparator \<Rightarrow> nat \<Rightarrow> 'a list \<Rightarrow> 'a list" where
  "pass_merge func g R =
     (if g = 0 \<or> R = [] then R
      else run_merge func (take g R) (take g (drop g R)) @ pass_merge func g (drop (2 * g) R))"
  by pat_completeness auto
termination
  by (relation "measure (\<lambda>(func, g, R). length R)") auto

function merges :: "nat \<Rightarrow> 'a list \<Rightarrow> nat" where
  "merges g R = (if g = 0 \<or> R = [] then 0 else Suc (merges g (drop (2 * g) R)))"
  by pat_completeness auto
termination
  by (relation "measure (\<lambda>(g, R). length R)") auto

function all_passes :: "'a comparator \<Rightarrow> nat \<Rightarrow> nat \<Rightarrow> 'a list \<Rightarrow> 'a list" where
  "all_passes func n g R =
     (if 0 < g \<and> 2 * g < n then all_passes func n (2 * g) (pass_merge func g R)
      else pass_merge func g R)"
  by pat_completeness auto
termination
  by (relation "measure (\<lambda>(func, n, g, R). n - g)") auto

definition sort_spec :: "'a comparator \<Rightarrow> 'a list \<Rightarrow> 'a list" where
  "sort_spec func xs = (if length xs < 2 then xs else all_passes func (length xs) 1 xs)"

declare pass_merge.simps [simp del]

declare merges.simps [simp del]

declare all_passes.simps [simp del]

declare sort_run.simps [simp del]

text \<open>\<open>runs_sorted func g R\<close>: each of the consecutive runs of length \<open>g\<close> of \<open>R\<close> is sorted.\<close>

definition precedes :: "'a comparator \<Rightarrow> 'a \<Rightarrow> 'a \<Rightarrow> bool" where
  "precedes func a b = (func (Ptr a) (Ptr b) \<le> 0)"

definition runs_sorted :: "'a comparator \<Rightarrow> nat \<Rightarrow> 'a list \<Rightarrow> bool" where
  "runs_sorted func g R = (\<forall>k. sorted_wrt (precedes func) (take g (drop (k * g) R)))"

section \<open>Facts about chains and comparators\<close>

lemma chain_NULL [simp]: "chain h NULL xs = (xs = [])"
  by (cases xs) simp_all

lemma chain_fun: "chain h p xs \<Longrightarrow> chain h p ys \<Longrightarrow> xs = ys"
proof (induction xs arbitrary: p ys)
  case Nil
  then show ?case by simp
next
  case (Cons a xs)
  then show ?case by (cases ys) auto
qed

lemma chain_upd: "a \<notin> set xs \<Longrightarrow> chain (h(a := v)) p xs = chain h p xs"
  by (induction xs arbitrary: p) auto

lemma chain_not_in_tail:
  assumes "chain h (h a) xs"
  shows "a \<notin> set xs"
proof
  assume "a \<in> set xs"
  then obtain us vs where xs: "xs = us @ a # vs"
    by (auto simp: in_set_conv_decomp)
  have "\<And>p. chain h p (us @ a # vs) \<Longrightarrow> chain h (h a) vs"
    by (induction us) auto
  with assms xs have "chain h (h a) vs" by blast
  with assms have "xs = vs" by (rule chain_fun)
  with xs show False by simp
qed

lemma chain_distinct: "chain h p xs \<Longrightarrow> distinct xs"
  by (induction xs arbitrary: p) (auto dest: chain_not_in_tail)

lemma last_loop_chain:
  "chain h (Ptr e) xs \<Longrightarrow> last_loop h e = Some (last xs)"
proof (induction xs arbitrary: e)
  case Nil
  then show ?case by simp
next
  case (Cons a xs)
  then have e: "e = a" and tl: "chain h (h a) xs" by simp_all
  show ?case
  proof (cases xs)
    case Nil
    with tl e show ?thesis by (subst last_loop.simps) simp
  next
    case (Cons b bs)
    with tl have hb: "h a = Ptr b" by simp
    with Cons.IH [of b] tl have "last_loop h b = Some (last xs)" by simp
    with hb e Cons show ?thesis by (subst last_loop.simps) simp
  qed
qed

lemma LIST_LAST_chain:
  "chain h (list_fst list) xs \<Longrightarrow> LIST_LAST h list = Some (if xs = [] then NULL else Ptr (last xs))"
  by (cases xs) (auto simp: LIST_LAST_def last_loop_chain [where xs = "_ # _", simplified] split: ptr.splits)

lemma length_loop_chain:
  "chain h p xs \<Longrightarrow> length_loop h p k = Some (k + int (length xs))"
proof (induction xs arbitrary: p k)
  case Nil
  then show ?case by (subst length_loop.simps) simp
next
  case (Cons a xs)
  then show ?case by (subst length_loop.simps) simp
qed

lemma chain_append_upd:
  assumes "chain h p xs" and "xs \<noteq> []" and "chain h q ys" and "set xs \<inter> set ys = {}"
  shows "chain (h(last xs := q)) p (xs @ ys)"
  using assms
proof (induction xs arbitrary: p)
  case Nil
  then show ?case by simp
next
  case (Cons a xs)
  then have p: "p = Ptr a" and tl: "chain h (h a) xs" by simp_all
  from tl have nin: "a \<notin> set xs" by (rule chain_not_in_tail)
  define h' where "h' = h(last (a # xs) := q)"
  have "chain h' (h' a) (xs @ ys)"
  proof (cases "xs = []")
    case True
    from Cons.prems have "a \<notin> set ys" by simp
    then have "chain (h(a := q)) q ys" using Cons.prems(3) chain_upd [of a ys h q q] by blast
    with True show ?thesis by (simp add: h'_def)
  next
    case False
    with nin have "last xs \<noteq> a" using last_in_set by metis
    then have "h' a = h a" using False by (simp add: h'_def)
    moreover have "set xs \<inter> set ys = {}" using Cons.prems by auto
    then have "chain (h(last xs := q)) (h a) (xs @ ys)"
      using Cons.IH [OF tl False Cons.prems(3)] by blast
    ultimately show ?thesis using False by (simp add: h'_def)
  qed
  with p have "chain h' p ((a # xs) @ ys)" by simp
  then show ?case by (simp only: h'_def)
qed

lemma path_append: "path h p (xs @ ys) q = (\<exists>m. path h p xs m \<and> path h m ys q)"
  by (induction xs arbitrary: p) auto

lemma path_cong: "(\<And>c. c \<in> set xs \<Longrightarrow> h' c = h c) \<Longrightarrow> path h' p xs q = path h p xs q"
  by (induction xs arbitrary: p) auto

lemma path_upd: "a \<notin> set xs \<Longrightarrow> path (h(a := v)) p xs q = path h p xs q"
  by (rule path_cong) auto

lemma chain_cong: "(\<And>c. c \<in> set xs \<Longrightarrow> h' c = h c) \<Longrightarrow> chain h' p xs = chain h p xs"
  by (induction xs arbitrary: p) auto

lemma chain_path: "chain h p xs = path h p xs NULL"
  by (induction xs arbitrary: p) auto

lemma cmp_contract_refl: "cmp_contract func xs \<Longrightarrow> a \<in> set xs \<Longrightarrow> func (Ptr a) (Ptr a) = 0"
  unfolding cmp_contract_def by (metis less_le not_less)

lemma cmp_contract_anti:
  "cmp_contract func xs \<Longrightarrow> a \<in> set xs \<Longrightarrow> b \<in> set xs \<Longrightarrow> 0 < func (Ptr a) (Ptr b)
     \<Longrightarrow> func (Ptr b) (Ptr a) < 0"
  unfolding cmp_contract_def by blast

lemma cmp_contract_trans:
  "cmp_contract func xs \<Longrightarrow> a \<in> set xs \<Longrightarrow> b \<in> set xs \<Longrightarrow> c \<in> set xs
     \<Longrightarrow> func (Ptr a) (Ptr b) \<le> 0 \<Longrightarrow> func (Ptr b) (Ptr c) \<le> 0 \<Longrightarrow> func (Ptr a) (Ptr c) \<le> 0"
  unfolding cmp_contract_def by blast

lemma cmp_contract_subset:
  "cmp_contract func xs \<Longrightarrow> set ys \<subseteq> set xs \<Longrightarrow> cmp_contract func ys"
  unfolding cmp_contract_def by (meson subsetD)

lemma cmp_contract_set: "cmp_contract func xs \<Longrightarrow> set ys = set xs \<Longrightarrow> cmp_contract func ys"
  by (erule cmp_contract_subset) (rule equalityD1)

section \<open>Empty lists\<close>

text \<open>
  C8. On an empty list \<open>LIST_POP\<close> and \<open>LIST_DROP\<close> return the world and the list as they
  were, whatever the cleanup callback is (so it was not called), and \<open>LIST_FIRST\<close>,
  \<open>LIST_LAST\<close>, \<open>LIST_MAX\<close>, \<open>LIST_MIN\<close> and \<open>LIST_FIND\<close> return \<open>NULL\<close>; none of them
  fails or loops.
\<close>

theorem empty_list_degrades:
  "LIST_POP clean w \<lparr>list_fst = NULL\<rparr> = (w, \<lparr>list_fst = NULL\<rparr>)
   \<and> LIST_DROP clean n w \<lparr>list_fst = NULL\<rparr> = (w, \<lparr>list_fst = NULL\<rparr>)
   \<and> LIST_FIRST \<lparr>list_fst = NULL\<rparr> = (NULL :: 'a ptr)
   \<and> LIST_LAST h \<lparr>list_fst = NULL\<rparr> = Some NULL
   \<and> LIST_MAX func h \<lparr>list_fst = NULL\<rparr> = Some NULL
   \<and> LIST_MIN func h \<lparr>list_fst = NULL\<rparr> = Some NULL
   \<and> LIST_FIND pred h \<lparr>list_fst = NULL\<rparr> = Some NULL"
  by (simp add: LIST_POP_def LIST_DROP_def LIST_FIRST_def LIST_LAST_def LIST_MAX_def
      LIST_MIN_def LIST_FIND_def find_loop.simps)

section \<open>The link of a removed element\<close>

text \<open>
  C10. \<open>LIST_POP\<close> hands the removed head \<open>e\<close> to the cleanup callback in the world it
  was called in, and the new head is the link of \<open>e\<close>. \<open>LIST_REMOVE\<close> on \<open>a\<close>, whose
  successor is \<open>e\<close>, hands \<open>e\<close> to the callback in a world where only the link of \<open>a\<close>
  has changed: the link of \<open>e\<close> is still the element that followed \<open>e\<close>, which is now
  also the link of \<open>a\<close>. Neither macro resets the link of the removed element.
\<close>

theorem removed_link_kept:
  "(list_fst list = Ptr e \<longrightarrow>
      LIST_POP clean w list = (call_clean clean e w, list\<lparr>list_fst := links w e\<rparr>))
   \<and> (links w a = Ptr d \<longrightarrow>
      (\<exists>w1. LIST_REMOVE clean w (Ptr a) = Inr (call_clean clean d w1)
         \<and> links w1 d = links w d \<and> links w1 a = links w d
         \<and> (\<forall>b. b \<noteq> a \<longrightarrow> links w1 b = links w b) \<and> user w1 = user w))"
  by (auto simp: LIST_POP_def LIST_REMOVE_def)

theorem removed_link_kept_witness:
  "LIST_POP log_clean \<lparr>links = links_of [0::nat, 1, 2], user = []\<rparr> \<lparr>list_fst = Ptr 0\<rparr>
     = (\<lparr>links = links_of [0, 1, 2], user = [(0, Ptr 1)]\<rparr>, \<lparr>list_fst = Ptr 1\<rparr>)
   \<and> (\<exists>w1. LIST_REMOVE log_clean \<lparr>links = links_of [0::nat, 1, 2], user = []\<rparr> (Ptr 0)
              = Inr (w1\<lparr>user := [(1, Ptr 2)]\<rparr>)
         \<and> links w1 1 = Ptr 2 \<and> links w1 0 = Ptr 2)"
  using removed_link_kept [where list = "\<lparr>list_fst = Ptr (0::nat)\<rparr>" and e = 0
      and clean = log_clean and w = "\<lparr>links = links_of [0::nat, 1, 2], user = []\<rparr>"
      and a = 0 and d = 1]
  by (auto simp: call_clean_def log_clean_def)

section \<open>\<open>LIST_MAX\<close> and \<open>LIST_MIN\<close>\<close>

lemma max_loop_chain:
  "chain h (Ptr e) (e # es) \<Longrightarrow> max_loop func h out e = Some (scan_max func out (e # es))"
proof (induction es arbitrary: e out)
  case Nil
  then show ?case by (subst max_loop.simps) simp
next
  case (Cons a es)
  then have "h e = Ptr a" and "chain h (Ptr a) (a # es)" by simp_all
  with Cons.IH show ?case by (subst max_loop.simps) simp
qed

lemma min_loop_chain:
  "chain h (Ptr e) (e # es) \<Longrightarrow> min_loop func h out e = Some (scan_min func out (e # es))"
proof (induction es arbitrary: e out)
  case Nil
  then show ?case by (subst min_loop.simps) simp
next
  case (Cons a es)
  then have "h e = Ptr a" and "chain h (Ptr a) (a # es)" by simp_all
  with Cons.IH show ?case by (subst min_loop.simps) simp
qed

lemma scan_max_snoc:
  "scan_max func out (es @ [e]) =
     (if func (scan_max func out es) (Ptr e) < 1 then Ptr e else scan_max func out es)"
  by (induction es arbitrary: out) simp_all

lemma scan_min_snoc:
  "scan_min func out (es @ [e]) =
     (if func (scan_min func out es) (Ptr e) > - 1 then Ptr e else scan_min func out es)"
  by (induction es arbitrary: out) simp_all

lemma best_max_mem:
  "m \<in> set (best_max func xs) = (m \<in> set xs \<and> (\<forall>z\<in>set xs. func (Ptr z) (Ptr m) \<le> 0))"
  by (simp add: best_max_def)

lemma scan_max_last_best:
  assumes "cmp_contract func (x # es)"
  shows "best_max func (x # es) \<noteq> []
         \<and> scan_max func (Ptr x) es = Ptr (last (best_max func (x # es)))"
  using assms
proof (induction es rule: rev_induct)
  case Nil
  then have "func (Ptr x) (Ptr x) = 0" by (simp add: cmp_contract_refl)
  then show ?case by (simp add: best_max_def)
next
  case (snoc e es)
  let ?all = "x # es @ [e]"
  have sub: "cmp_contract func (x # es)"
    using snoc.prems by (rule cmp_contract_subset) auto
  define m where "m = last (best_max func (x # es))"
  from snoc.IH [OF sub] have ne: "best_max func (x # es) \<noteq> []"
    and scan: "scan_max func (Ptr x) es = Ptr m" by (simp_all add: m_def)
  from ne have "m \<in> set (best_max func (x # es))" unfolding m_def by (rule last_in_set)
  then have m_in: "m \<in> set (x # es)" and m_top: "\<forall>z\<in>set (x # es). func (Ptr z) (Ptr m) \<le> 0"
    unfolding best_max_mem by blast+
  have e_refl: "func (Ptr e) (Ptr e) = 0"
    using snoc.prems by (rule cmp_contract_refl) simp
  show ?case
  proof (cases "func (Ptr m) (Ptr e) < 1")
    case True
    have "\<forall>z\<in>set ?all. func (Ptr z) (Ptr e) \<le> 0"
    proof
      fix z assume z: "z \<in> set ?all"
      show "func (Ptr z) (Ptr e) \<le> 0"
      proof (cases "z = e")
        case True
        with e_refl show ?thesis by simp
      next
        case False
        with z have zin: "z \<in> set (x # es)" by auto
        with m_top have "func (Ptr z) (Ptr m) \<le> 0" by blast
        moreover from True have "func (Ptr m) (Ptr e) \<le> 0" by simp
        ultimately show ?thesis
          using cmp_contract_trans [OF snoc.prems, of z m e] zin m_in by auto
      qed
    qed
    then have "best_max func ?all = filter (\<lambda>y. \<forall>z\<in>set ?all. func (Ptr z) (Ptr y) \<le> 0) (x # es) @ [e]"
      by (simp add: best_max_def)
    with True scan show ?thesis by (simp add: scan_max_snoc)
  next
    case False
    then have pos: "0 < func (Ptr m) (Ptr e)" by simp
    have em: "func (Ptr e) (Ptr m) < 0"
      using cmp_contract_anti [OF snoc.prems, of m e] pos m_in by auto
    define P where "P = (\<lambda>y. \<forall>z\<in>set ?all. func (Ptr z) (Ptr y) \<le> 0)"
    define Q where "Q = (\<lambda>y. \<forall>z\<in>set (x # es). func (Ptr z) (Ptr y) \<le> 0)"
    have not_e: "\<not> P e"
    proof
      assume "P e"
      moreover from m_in have "m \<in> set ?all" by auto
      ultimately have "func (Ptr m) (Ptr e) \<le> 0" unfolding P_def by blast
      with pos show False by simp
    qed
    have same: "filter P (x # es) = filter Q (x # es)"
    proof (rule filter_cong [OF refl])
      fix y assume y: "y \<in> set (x # es)"
      show "P y = Q y"
      proof
        assume "P y"
        then show "Q y" unfolding P_def Q_def by auto
      next
        assume top: "Q y"
        with m_in have "func (Ptr m) (Ptr y) \<le> 0" unfolding Q_def by blast
        with em have "func (Ptr e) (Ptr y) \<le> 0"
          using cmp_contract_trans [OF snoc.prems, of e m y] m_in y by auto
        with top show "P y" unfolding P_def Q_def by auto
      qed
    qed
    have "best_max func ?all = filter P ((x # es) @ [e])"
      unfolding best_max_def P_def by simp
    also have "\<dots> = filter P (x # es)"
      using not_e by (simp only: filter_append filter.simps if_False append_Nil2)
    also have "\<dots> = best_max func (x # es)"
      unfolding same unfolding best_max_def Q_def by (rule refl)
    finally have "best_max func ?all = best_max func (x # es)" .
    with False scan ne show ?thesis by (simp add: scan_max_snoc m_def)
  qed
qed

lemma scan_min_flip: "scan_min func out es = scan_max (flip_cmp func) out es"
  by (induction es arbitrary: out) (simp_all add: flip_cmp_def)

lemma cmp_contract_swap:
  assumes "cmp_contract func xs" and "a \<in> set xs" and "b \<in> set xs"
  shows "(func (Ptr a) (Ptr b) \<le> 0) = (0 \<le> func (Ptr b) (Ptr a))"
  using assms unfolding cmp_contract_def by (metis not_less)

lemma cmp_contract_flip:
  assumes "cmp_contract func xs"
  shows "cmp_contract (flip_cmp func) xs"
  unfolding cmp_contract_def flip_cmp_def
proof (intro conjI ballI impI)
  fix a b assume "a \<in> set xs" "b \<in> set xs"
  with assms show "(- func (Ptr a) (Ptr b) < 0) = (0 < - func (Ptr b) (Ptr a))"
    unfolding cmp_contract_def by auto
next
  fix a b c assume in_xs: "a \<in> set xs" "b \<in> set xs" "c \<in> set xs"
    and le: "- func (Ptr a) (Ptr b) \<le> 0 \<and> - func (Ptr b) (Ptr c) \<le> 0"
  then have "func (Ptr c) (Ptr b) \<le> 0" "func (Ptr b) (Ptr a) \<le> 0"
    using cmp_contract_swap [OF assms] by auto
  then have "func (Ptr c) (Ptr a) \<le> 0"
    using cmp_contract_trans [OF assms] in_xs by blast
  then show "- func (Ptr a) (Ptr c) \<le> 0"
    using cmp_contract_swap [OF assms] in_xs by auto
qed

lemma best_min_flip:
  assumes "cmp_contract func xs"
  shows "best_min func xs = best_max (flip_cmp func) xs"
  unfolding best_min_def best_max_def
proof (rule filter_cong [OF refl])
  fix y assume "y \<in> set xs"
  then show "(\<forall>z\<in>set xs. func (Ptr y) (Ptr z) \<le> 0)
           = (\<forall>z\<in>set xs. flip_cmp func (Ptr z) (Ptr y) \<le> 0)"
    using cmp_contract_swap [OF assms] by (auto simp: flip_cmp_def)
qed

text \<open>
  C5, as the macros behave. On a chain \<open>xs\<close> whose comparator obeys the contract,
  \<open>LIST_MAX\<close> returns the last of the elements tied for the maximum and \<open>LIST_MIN\<close> the
  last of the elements tied for the minimum: the tests \<open>func(*out, e) < 1\<close> and
  \<open>func(*out, e) > -1\<close> hold on a tie, so a later equal element replaces the running
  best. On the empty list both return \<open>NULL\<close>. That the first of the tied elements
  is returned fails on the chain \<open>[0, 1]\<close> of two equal elements, where both return \<open>1\<close>.
\<close>

theorem max_min_keep_last_tie:
  assumes "chain h (list_fst list) xs" and "cmp_contract func xs"
  shows "if xs = [] then LIST_MAX func h list = Some NULL \<and> LIST_MIN func h list = Some NULL
         else best_max func xs \<noteq> [] \<and> LIST_MAX func h list = Some (Ptr (last (best_max func xs)))
            \<and> best_min func xs \<noteq> [] \<and> LIST_MIN func h list = Some (Ptr (last (best_min func xs)))"
proof (cases xs)
  case Nil
  with assms(1) show ?thesis by (simp add: LIST_MAX_def LIST_MIN_def)
next
  case (Cons x es)
  with assms(1) have fst: "list_fst list = Ptr x" and ch: "chain h (Ptr x) (x # es)" by auto
  have mx: "LIST_MAX func h list = Some (scan_max func (Ptr x) es)"
    using fst max_loop_chain [OF ch, of func "Ptr x"] by (simp add: LIST_MAX_def)
  have mn: "LIST_MIN func h list = Some (scan_max (flip_cmp func) (Ptr x) es)"
    using fst min_loop_chain [OF ch, of func "Ptr x"]
    by (simp add: LIST_MIN_def scan_min_flip flip_cmp_def)
  from assms(2) Cons have con: "cmp_contract func (x # es)" by simp
  note a = scan_max_last_best [OF con]
  note b = scan_max_last_best [OF cmp_contract_flip [OF con]]
  from a b mx mn show ?thesis
    unfolding Cons best_min_flip [OF con] by simp
qed

theorem max_min_keep_last_tie_witness:
  "best_max (key_cmp (\<lambda>a. [1, 3, 3, 1] ! a)) [0::nat, 1, 2, 3] = [1, 2]
   \<and> LIST_MAX (key_cmp (\<lambda>a. [1, 3, 3, 1] ! a)) (links_of [0, 1, 2, 3]) \<lparr>list_fst = Ptr (0::nat)\<rparr>
       = Some (Ptr 2)
   \<and> best_min (key_cmp (\<lambda>a. [1, 3, 3, 1] ! a)) [0::nat, 1, 2, 3] = [0, 3]
   \<and> LIST_MIN (key_cmp (\<lambda>a. [1, 3, 3, 1] ! a)) (links_of [0, 1, 2, 3]) \<lparr>list_fst = Ptr (0::nat)\<rparr>
       = Some (Ptr 3)
   \<and> LIST_MAX (key_cmp (\<lambda>a. int a)) (links_of []) \<lparr>list_fst = NULL\<rparr> = Some (NULL :: nat ptr)
   \<and> LIST_MIN (key_cmp (\<lambda>a. int a)) (links_of []) \<lparr>list_fst = NULL\<rparr> = Some (NULL :: nat ptr)"
proof -
  have c: "chain (links_of [0, 1, 2, 3]) (list_fst \<lparr>list_fst = Ptr (0::nat)\<rparr>) [0, 1, 2, 3]"
    by simp
  have k: "cmp_contract (key_cmp (\<lambda>a. [1, 3, 3, 1] ! a)) [0::nat, 1, 2, 3]"
    by (auto simp: cmp_contract_def key_cmp_def)
  have bmax: "best_max (key_cmp (\<lambda>a. [1, 3, 3, 1] ! a)) [0::nat, 1, 2, 3] = [1, 2]"
    by (simp add: best_max_def key_cmp_def)
  have bmin: "best_min (key_cmp (\<lambda>a. [1, 3, 3, 1] ! a)) [0::nat, 1, 2, 3] = [0, 3]"
    by (simp add: best_min_def key_cmp_def)
  have c0: "chain (links_of []) (list_fst \<lparr>list_fst = (NULL :: nat ptr)\<rparr>) []"
    by simp
  have k0: "cmp_contract (key_cmp (\<lambda>a. int a)) ([] :: nat list)"
    by (simp add: cmp_contract_def)
  from max_min_keep_last_tie [OF c k] max_min_keep_last_tie [OF c0 k0] show ?thesis
    unfolding bmax bmin by simp
qed

theorem max_min_first_tie_counterexample:
  "chain (links_of [0::nat, 1]) (Ptr 0) [0, 1]
   \<and> key_cmp (\<lambda>_. 0) (Ptr (0::nat)) (Ptr 1) = 0
   \<and> LIST_MAX (key_cmp (\<lambda>_. 0)) (links_of [0::nat, 1]) \<lparr>list_fst = Ptr 0\<rparr> = Some (Ptr 1)
   \<and> LIST_MAX (key_cmp (\<lambda>_. 0)) (links_of [0::nat, 1]) \<lparr>list_fst = Ptr 0\<rparr> \<noteq> Some (Ptr 0)
   \<and> LIST_MIN (key_cmp (\<lambda>_. 0)) (links_of [0::nat, 1]) \<lparr>list_fst = Ptr 0\<rparr> = Some (Ptr 1)
   \<and> LIST_MIN (key_cmp (\<lambda>_. 0)) (links_of [0::nat, 1]) \<lparr>list_fst = Ptr 0\<rparr> \<noteq> Some (Ptr 0)"
  by (simp add: LIST_MAX_def LIST_MIN_def max_loop.simps min_loop.simps key_cmp_def)

section \<open>\<open>LIST_APPEND\<close>\<close>

text \<open>
  C7. For two lists with the chains \<open>xs\<close> and \<open>ys\<close>, which share no element,
  \<open>LIST_APPEND\<close> returns; afterwards the first list has the chain \<open>xs @ ys\<close>, the second
  is empty, \<open>LIST_LENGTH\<close> of the first is the sum of the two lengths before the call,
  and when the first list was empty no link has changed and its head is the former
  head of the second.
\<close>

theorem append_moves_chain:
  assumes "chain h (list_fst list1) xs" and "chain h (list_fst list2) ys"
    and "set xs \<inter> set ys = {}"
  shows "\<exists>h' list1' list2'.
           LIST_APPEND h list1 list2 = Some (h', list1', list2')
         \<and> chain h' (list_fst list1') (xs @ ys)
         \<and> list_fst list2' = NULL
         \<and> LIST_LENGTH h' list1' = Some (int (length xs) + int (length ys))
         \<and> LIST_LENGTH h list1 = Some (int (length xs))
         \<and> LIST_LENGTH h list2 = Some (int (length ys))
         \<and> LIST_LENGTH h' list2' = Some 0
         \<and> (xs = [] \<longrightarrow> h' = h \<and> list_fst list1' = list_fst list2)"
proof (cases "xs = []")
  case True
  with assms have "list_fst list1 = NULL" by simp
  with assms True show ?thesis
    by (simp add: LIST_APPEND_def LIST_LAST_def LIST_LENGTH_def length_loop_chain)
next
  case False
  have "chain (h(last xs := list_fst list2)) (list_fst list1) (xs @ ys)"
    using assms False by (intro chain_append_upd)
  then show ?thesis
    using assms False
    by (simp add: LIST_APPEND_def LIST_LAST_chain LIST_LENGTH_def length_loop_chain)
qed

theorem append_moves_chain_witness:
  "(\<exists>h' list1' list2'.
      LIST_APPEND ((links_of [0::nat, 1])(2 := Ptr 3)) \<lparr>list_fst = Ptr 0\<rparr> \<lparr>list_fst = Ptr 2\<rparr>
        = Some (h', list1', list2')
      \<and> chain h' (list_fst list1') [0, 1, 2, 3] \<and> list_fst list2' = NULL
      \<and> LIST_LENGTH h' list1' = Some 4)
   \<and> (\<exists>list1' list2'.
      LIST_APPEND (links_of [2::nat, 3]) \<lparr>list_fst = NULL\<rparr> \<lparr>list_fst = Ptr 2\<rparr>
        = Some (links_of [2, 3], list1', list2')
      \<and> list_fst list1' = Ptr 2 \<and> list_fst list2' = NULL)"
proof
  have "chain ((links_of [0::nat, 1])(2 := Ptr 3)) (list_fst \<lparr>list_fst = Ptr 0\<rparr>) [0, 1]"
    and "chain ((links_of [0::nat, 1])(2 := Ptr 3)) (list_fst \<lparr>list_fst = Ptr 2\<rparr>) [2, 3]"
    and "set [0::nat, 1] \<inter> set [2, 3] = {}"
    by simp_all
  from append_moves_chain [OF this]
  show "\<exists>h' list1' list2'.
      LIST_APPEND ((links_of [0::nat, 1])(2 := Ptr 3)) \<lparr>list_fst = Ptr 0\<rparr> \<lparr>list_fst = Ptr 2\<rparr>
        = Some (h', list1', list2')
      \<and> chain h' (list_fst list1') [0, 1, 2, 3] \<and> list_fst list2' = NULL
      \<and> LIST_LENGTH h' list1' = Some 4" by auto
next
  have "chain (links_of [2::nat, 3]) (list_fst \<lparr>list_fst = NULL\<rparr>) []"
    and "chain (links_of [2::nat, 3]) (list_fst \<lparr>list_fst = Ptr 2\<rparr>) [2, 3]"
    and "set ([]::nat list) \<inter> set [2, 3] = {}"
    by simp_all
  from append_moves_chain [OF this]
  show "\<exists>list1' list2'.
      LIST_APPEND (links_of [2::nat, 3]) \<lparr>list_fst = NULL\<rparr> \<lparr>list_fst = Ptr 2\<rparr>
        = Some (links_of [2, 3], list1', list2')
      \<and> list_fst list1' = Ptr 2 \<and> list_fst list2' = NULL" by auto
qed

section \<open>The merge loop of \<open>LIST_SORT\<close>\<close>

text \<open>
  C2. In a step of the merge loop with an element \<open>a\<close> left in the left run
  (\<open>_list_ls > 0\<close>, \<open>_list_l = a\<close>) and an element \<open>b\<close> left in the right run
  (\<open>_list_rs > 0\<close>, \<open>_list_r = b\<close>), the element chosen and linked to the output is \<open>a\<close>
  when \<open>func(a, b) < 0\<close> and \<open>b\<close> otherwise, also when \<open>func(a, b) = 0\<close>; the run it was
  taken from advances by one element, the other run stays, and the loop goes on from
  the new state.
\<close>

theorem merge_tie_break:
  assumes "0 < list_ls s" and "0 < list_rs s" and "list_l s = Ptr a" and "list_r s = Ptr b"
  shows "\<exists>s'. sort_merge_step func s = Inr s'
           \<and> sort_merge func s = sort_merge func s'
           \<and> list_n s' = (if func (Ptr a) (Ptr b) < 0 then Ptr a else Ptr b)
           \<and> list_t s' = list_n s'
           \<and> (case list_t s of NULL \<Rightarrow> list_x s' = list_n s' | Ptr c \<Rightarrow> hp s' c = list_n s')
           \<and> (if func (Ptr a) (Ptr b) < 0
               then list_l s' = hp s a \<and> list_ls s' = list_ls s - 1
                    \<and> list_r s' = list_r s \<and> list_rs s' = list_rs s
               else list_r s' = hp s b \<and> list_rs s' = list_rs s - 1
                    \<and> list_l s' = list_l s \<and> list_ls s' = list_ls s)"
  using assms
  by (subst sort_merge.simps)
     (auto simp: sort_merge_step_def sort_choose_def sort_take_l_def sort_take_r_def
        sort_link_def split: ptr.splits)

theorem merge_tie_break_witness:
  "\<exists>s'. sort_merge_step (key_cmp (\<lambda>_. 0))
           \<lparr>hp = links_of [0::nat, 1], list_gl = 1, list_nm = 1, list_ls = 1, list_rs = 1,
            list_l = Ptr 0, list_r = Ptr 1, list_t = NULL, list_n = NULL, list_x = NULL\<rparr>
         = Inr s'
       \<and> list_n s' = Ptr 1 \<and> list_x s' = Ptr 1 \<and> list_r s' = NULL \<and> list_rs s' = 0
       \<and> list_l s' = Ptr 0 \<and> list_ls s' = 1"
  using merge_tie_break [of
      "\<lparr>hp = links_of [0::nat, 1], list_gl = 1, list_nm = 1, list_ls = 1, list_rs = 1,
        list_l = Ptr 0, list_r = Ptr 1, list_t = NULL, list_n = NULL, list_x = NULL\<rparr>"
      0 1 "key_cmp (\<lambda>_. 0)"]
  by (auto simp: key_cmp_def)

lemma run_merge_Nil2 [simp]: "run_merge func L [] = L"
  by (cases L) simp_all

lemma sort_link_out:
  assumes seg: "out_seg (hp s) (list_x s) D (list_t s)" and n: "list_n s = Ptr a"
    and fresh: "a \<notin> set D" and dist: "distinct D"
  shows "out_seg (hp (sort_link s)) (list_x (sort_link s)) (D @ [a]) (list_t (sort_link s))"
    and "\<And>c. c \<notin> set D \<Longrightarrow> hp (sort_link s) c = hp s c"
    and "list_l (sort_link s) = list_l s" and "list_r (sort_link s) = list_r s"
    and "list_ls (sort_link s) = list_ls s" and "list_rs (sort_link s) = list_rs s"
    and "list_gl (sort_link s) = list_gl s" and "list_nm (sort_link s) = list_nm s"
proof -
  show "list_l (sort_link s) = list_l s" "list_r (sort_link s) = list_r s"
    "list_ls (sort_link s) = list_ls s" "list_rs (sort_link s) = list_rs s"
    "list_gl (sort_link s) = list_gl s" "list_nm (sort_link s) = list_nm s"
    by (simp_all add: sort_link_def split: ptr.splits)
  show "\<And>c. c \<notin> set D \<Longrightarrow> hp (sort_link s) c = hp s c"
    using seg by (auto simp: sort_link_def out_seg_def split: ptr.splits if_splits)
  show "out_seg (hp (sort_link s)) (list_x (sort_link s)) (D @ [a]) (list_t (sort_link s))"
  proof (cases "D = []")
    case True
    with seg n show ?thesis by (simp add: out_seg_def sort_link_def)
  next
    case False
    define d where "d = last D"
    from False seg have t: "list_t s = Ptr d" and p: "path (hp s) (list_x s) (butlast D) (Ptr d)"
      by (simp_all add: out_seg_def d_def)
    have D: "D = butlast D @ [d]" using False by (simp add: d_def)
    with dist have dn: "d \<notin> set (butlast D)" by (metis distinct_append distinct.simps(2) disjoint_iff list.set_intros(1))
    define h' where "h' = (hp s)(d := Ptr a)"
    have "path h' (list_x s) (butlast D) (Ptr d)"
      unfolding h'_def path_upd [OF dn] by (rule p)
    moreover have "path h' (Ptr d) [d] (Ptr a)" by (simp add: h'_def)
    ultimately have "path h' (list_x s) (butlast D @ [d]) (Ptr a)"
      unfolding path_append by blast
    with D have "path h' (list_x s) D (Ptr a)" by simp
    moreover have "sort_link s = s\<lparr>hp := h', list_t := Ptr a\<rparr>"
      using t n by (simp add: sort_link_def h'_def)
    ultimately show ?thesis by (simp add: out_seg_def)
  qed
qed

lemma merge_step_left:
  assumes inv: "merge_inv s D (a # L) Rr Rest"
    and choose: "Rr = [] \<or> (\<exists>b Rr'. Rr = b # Rr' \<and> func (Ptr a) (Ptr b) < 0)"
  shows "\<exists>s'. sort_merge_step func s = Inr s' \<and> merge_inv s' (D @ [a]) L Rr Rest
           \<and> list_gl s' = list_gl s \<and> list_nm s' = list_nm s"
proof -
  from inv obtain q where seg: "out_seg (hp s) (list_x s) D (list_t s)"
    and l: "list_l s = Ptr a" and pl: "path (hp s) (hp s a) L q"
    and ch: "chain (hp s) (list_r s) (Rr @ Rest)"
    and dist: "distinct (D @ (a # L) @ Rr @ Rest)"
    and ls: "list_ls s = int (length (a # L))"
    and rs: "list_rs s = int (length Rr) \<or> (Rest = [] \<and> int (length Rr) \<le> list_rs s)"
    unfolding merge_inv_def by auto
  define s1 where "s1 = s\<lparr>list_n := Ptr a, list_l := hp s a, list_ls := list_ls s - 1\<rparr>"
  have cond: "list_rs s = 0 \<or> list_r s = NULL \<or> func (list_l s) (list_r s) < 0"
  proof (cases Rr)
    case Nil
    with rs ch show ?thesis by auto
  next
    case (Cons b Rr')
    with choose ch l show ?thesis by auto
  qed
  from ls have "list_ls s \<noteq> 0" by simp
  with cond l have choose_l: "sort_choose func s = Inr s1"
    by (simp add: sort_choose_def sort_take_l_def s1_def)
  have seg1: "out_seg (hp s1) (list_x s1) D (list_t s1)" using seg by (simp add: s1_def)
  have n1: "list_n s1 = Ptr a" by (simp add: s1_def)
  from dist have fresh: "a \<notin> set D" and dD: "distinct D" by auto
  note lk = sort_link_out [OF seg1 n1 fresh dD]
  define s' where "s' = sort_link s1"
  have step: "sort_merge_step func s = Inr s'"
    using choose_l by (simp add: sort_merge_step_def s'_def)
  have frame: "\<And>c. c \<notin> set D \<Longrightarrow> hp s' c = hp s c"
    using lk(2) by (simp add: s'_def s1_def)
  have "path (hp s') (list_l s') L q"
  proof -
    have "path (hp s') (hp s a) L q = path (hp s) (hp s a) L q"
      using dist by (intro path_cong frame) auto
    with pl lk(3) show ?thesis by (simp add: s'_def s1_def)
  qed
  moreover have "chain (hp s') (list_r s') (Rr @ Rest)"
  proof -
    have "chain (hp s') (list_r s) (Rr @ Rest) = chain (hp s) (list_r s) (Rr @ Rest)"
      using dist by (intro chain_cong frame) auto
    with ch lk(4) show ?thesis by (simp add: s'_def s1_def)
  qed
  moreover have "out_seg (hp s') (list_x s') (D @ [a]) (list_t s')"
    using lk(1) by (simp add: s'_def)
  moreover have "distinct ((D @ [a]) @ L @ Rr @ Rest)" using dist by auto
  moreover have "list_ls s' = int (length L)" using lk(5) ls by (simp add: s'_def s1_def)
  moreover have "list_rs s' = list_rs s" using lk(6) by (simp add: s'_def s1_def)
  moreover have "list_gl s' = list_gl s" "list_nm s' = list_nm s"
    using lk(7,8) by (simp_all add: s'_def s1_def)
  ultimately show ?thesis using step rs unfolding merge_inv_def by auto
qed

lemma merge_step_right:
  assumes inv: "merge_inv s D L (b # Rr) Rest"
    and choose: "L = [] \<or> (\<exists>a L'. L = a # L' \<and> \<not> func (Ptr a) (Ptr b) < 0)"
  shows "\<exists>s'. sort_merge_step func s = Inr s' \<and> merge_inv s' (D @ [b]) L Rr Rest
           \<and> list_gl s' = list_gl s \<and> list_nm s' = list_nm s"
proof -
  from inv obtain q where seg: "out_seg (hp s) (list_x s) D (list_t s)"
    and pl: "path (hp s) (list_l s) L q"
    and r: "list_r s = Ptr b" and ch: "chain (hp s) (hp s b) (Rr @ Rest)"
    and dist: "distinct (D @ L @ (b # Rr) @ Rest)"
    and ls: "list_ls s = int (length L)"
    and rs: "list_rs s = int (length (b # Rr)) \<or> (Rest = [] \<and> int (length (b # Rr)) \<le> list_rs s)"
    unfolding merge_inv_def by auto
  define s1 where "s1 = s\<lparr>list_n := Ptr b, list_r := hp s b, list_rs := list_rs s - 1\<rparr>"
  from rs have rs0: "list_rs s \<noteq> 0" by auto
  have choose_r: "sort_choose func s = Inr s1"
  proof (cases L)
    case Nil
    with ls r show ?thesis by (simp add: sort_choose_def sort_take_r_def s1_def)
  next
    case (Cons a L')
    with choose have "\<not> func (Ptr a) (Ptr b) < 0" by simp
    moreover from Cons pl have "list_l s = Ptr a" by simp
    moreover from Cons ls have "list_ls s \<noteq> 0" by simp
    ultimately show ?thesis using r rs0
      by (simp add: sort_choose_def sort_take_r_def s1_def)
  qed
  have seg1: "out_seg (hp s1) (list_x s1) D (list_t s1)" using seg by (simp add: s1_def)
  have n1: "list_n s1 = Ptr b" by (simp add: s1_def)
  from dist have fresh: "b \<notin> set D" and dD: "distinct D" by auto
  note lk = sort_link_out [OF seg1 n1 fresh dD]
  define s' where "s' = sort_link s1"
  have step: "sort_merge_step func s = Inr s'"
    using choose_r by (simp add: sort_merge_step_def s'_def)
  have frame: "\<And>c. c \<notin> set D \<Longrightarrow> hp s' c = hp s c"
    using lk(2) by (simp add: s'_def s1_def)
  have "path (hp s') (list_l s') L q"
  proof -
    have "path (hp s') (list_l s) L q = path (hp s) (list_l s) L q"
      using dist by (intro path_cong frame) auto
    with pl lk(3) show ?thesis by (simp add: s'_def s1_def)
  qed
  moreover have "chain (hp s') (list_r s') (Rr @ Rest)"
  proof -
    have "chain (hp s') (hp s b) (Rr @ Rest) = chain (hp s) (hp s b) (Rr @ Rest)"
      using dist by (intro chain_cong frame) auto
    with ch lk(4) show ?thesis by (simp add: s'_def s1_def)
  qed
  moreover have "out_seg (hp s') (list_x s') (D @ [b]) (list_t s')"
    using lk(1) by (simp add: s'_def)
  moreover have "distinct ((D @ [b]) @ L @ Rr @ Rest)" using dist by auto
  moreover have "list_ls s' = int (length L)" using lk(5) ls by (simp add: s'_def s1_def)
  moreover have "list_rs s' = list_rs s - 1" using lk(6) by (simp add: s'_def s1_def)
  moreover have "list_gl s' = list_gl s" "list_nm s' = list_nm s"
    using lk(7,8) by (simp_all add: s'_def s1_def)
  ultimately show ?thesis using step rs unfolding merge_inv_def by auto
qed

lemma sort_merge_stop:
  "\<not> (list_ls s > 0 \<or> (list_rs s > 0 \<and> list_r s \<noteq> NULL)) \<Longrightarrow> sort_merge func s = Some (Inr s)"
  by (subst sort_merge.simps) auto

lemma sort_merge_go:
  "list_ls s > 0 \<or> (list_rs s > 0 \<and> list_r s \<noteq> NULL) \<Longrightarrow> sort_merge_step func s = Inr s1
     \<Longrightarrow> sort_merge func s = sort_merge func s1"
  by (subst sort_merge.simps) auto

lemma sort_merge_loop:
  assumes "merge_inv s D L Rr Rest"
  shows "\<exists>s'. sort_merge func s = Some (Inr s')
           \<and> merge_inv s' (D @ run_merge func L Rr) [] [] Rest
           \<and> list_gl s' = list_gl s \<and> list_nm s' = list_nm s"
  using assms
proof (induction "length L + length Rr" arbitrary: s D L Rr rule: less_induct)
  case less
  note inv = less.prems
  have cond: "(list_ls s > 0 \<or> (list_rs s > 0 \<and> list_r s \<noteq> NULL)) = (L \<noteq> [] \<or> Rr \<noteq> [])"
    using inv unfolding merge_inv_def by (cases Rr) auto
  have next_step: "\<exists>s'. sort_merge func s1 = Some (Inr s')
           \<and> merge_inv s' (D @ run_merge func L Rr) [] [] Rest
           \<and> list_gl s' = list_gl s \<and> list_nm s' = list_nm s"
    if st: "sort_merge_step func s = Inr s1" and inv1: "merge_inv s1 (D @ [c]) L1 Rr1 Rest"
      and sm: "length L1 + length Rr1 < length L + length Rr"
      and mg: "run_merge func L Rr = c # run_merge func L1 Rr1"
      and same: "list_gl s1 = list_gl s" "list_nm s1 = list_nm s" for s1 c L1 Rr1
    using less.hyps [OF sm inv1] mg same by simp
  show ?case
  proof (cases L)
    case Nil
    note L = Nil
    show ?thesis
    proof (cases Rr)
      case Nil
      with L cond have "sort_merge func s = Some (Inr s)"
        by (intro sort_merge_stop) simp
      with inv L Nil show ?thesis by simp
    next
      case (Cons b Rr')
      with L inv obtain s1 where st: "sort_merge_step func s = Inr s1"
        and inv1: "merge_inv s1 (D @ [b]) L Rr' Rest"
        and same: "list_gl s1 = list_gl s" "list_nm s1 = list_nm s"
        using merge_step_right [of s D L b Rr' Rest func] by auto
      have "sort_merge func s = sort_merge func s1"
        using cond Cons st by (intro sort_merge_go) simp_all
      moreover have "run_merge func L Rr = b # run_merge func L Rr'" using L Cons by simp
      ultimately show ?thesis
        using next_step [OF st inv1 _ _ same] Cons by simp
    qed
  next
    case (Cons a L')
    note L = Cons
    have left: ?thesis if ch: "Rr = [] \<or> (\<exists>b Rr'. Rr = b # Rr' \<and> func (Ptr a) (Ptr b) < 0)"
    proof -
      from L inv ch obtain s1 where st: "sort_merge_step func s = Inr s1"
        and inv1: "merge_inv s1 (D @ [a]) L' Rr Rest"
        and same: "list_gl s1 = list_gl s" "list_nm s1 = list_nm s"
        using merge_step_left [of s D a L' Rr Rest func] by auto
      have "sort_merge func s = sort_merge func s1"
        using cond L st by (intro sort_merge_go) simp_all
      moreover have "run_merge func L Rr = a # run_merge func L' Rr"
        using L ch by (cases Rr) auto
      ultimately show ?thesis
        using next_step [OF st inv1 _ _ same] L by simp
    qed
    show ?thesis
    proof (cases Rr)
      case Nil
      then show ?thesis using left by simp
    next
      case (Cons b Rr')
      show ?thesis
      proof (cases "func (Ptr a) (Ptr b) < 0")
        case True
        with Cons show ?thesis using left by simp
      next
        case False
        with L Cons inv obtain s1 where st: "sort_merge_step func s = Inr s1"
          and inv1: "merge_inv s1 (D @ [b]) L Rr' Rest"
          and same: "list_gl s1 = list_gl s" "list_nm s1 = list_nm s"
          using merge_step_right [of s D L b Rr' Rest func] by auto
        have "sort_merge func s = sort_merge func s1"
          using cond Cons st by (intro sort_merge_go) simp_all
        moreover have "run_merge func L Rr = b # run_merge func L Rr'"
          using L Cons False by simp
        ultimately show ?thesis
          using next_step [OF st inv1 _ _ same] Cons by simp
      qed
    qed
  qed
qed

text \<open>
  The merge loop turns the output \<open>D\<close>, the left run \<open>L\<close> and the right run \<open>Rr\<close> into
  \<open>D @ run_merge func L Rr\<close> (\<open>sort_merge_loop\<close>). When no element of the left run is
  strictly before an element of the right run, as when all of them are equivalent, that
  is the whole right run followed by the whole left run.
\<close>

lemma run_merge_ties:
  "(\<forall>a\<in>set L. \<forall>b\<in>set R. \<not> func (Ptr a) (Ptr b) < 0) \<Longrightarrow> run_merge func L R = R @ L"
proof (induction R)
  case Nil
  then show ?case by simp
next
  case (Cons b R)
  then show ?case by (cases L) auto
qed

section \<open>One pass of \<open>LIST_SORT\<close>\<close>

lemma sort_run_walk:
  assumes "chain (hp s) (list_r s) R" and "list_gl s = int g" and "list_ls s = int k" and "k \<le> g"
  shows "\<exists>r'. sort_run s = s\<lparr>list_ls := int (k + length (take (g - k) R)), list_r := r'\<rparr>
           \<and> path (hp s) (list_r s) (take (g - k) R) r' \<and> chain (hp s) r' (drop (g - k) R)"
  using assms
proof (induction R arbitrary: s k)
  case Nil
  then have "sort_run s = s" by (subst sort_run.simps) simp
  with Nil show ?case by simp
next
  case (Cons a R)
  then have r: "list_r s = Ptr a" and tl: "chain (hp s) (hp s a) R" by simp_all
  show ?case
  proof (cases "k < g")
    case False
    with Cons.prems have "k = g" by simp
    moreover from this Cons.prems r have "sort_run s = s" by (subst sort_run.simps) simp
    ultimately show ?thesis using Cons.prems by simp
  next
    case True
    define s1 where "s1 = s\<lparr>list_ls := list_ls s + 1, list_r := hp s a\<rparr>"
    have run: "sort_run s = sort_run s1"
      using True Cons.prems r by (subst sort_run.simps) (simp add: s1_def)
    have "chain (hp s1) (list_r s1) R" "list_gl s1 = int g" "list_ls s1 = int (Suc k)" "Suc k \<le> g"
      using tl True Cons.prems by (simp_all add: s1_def)
    from Cons.IH [OF this] obtain r' where
      eq: "sort_run s1 = s1\<lparr>list_ls := int (Suc k + length (take (g - Suc k) R)), list_r := r'\<rparr>"
      and p: "path (hp s1) (list_r s1) (take (g - Suc k) R) r'"
      and c: "chain (hp s1) r' (drop (g - Suc k) R)" by blast
    from True obtain d where d: "g - k = Suc d" "g - Suc k = d"
      by (metis Suc_diff_Suc)
    have "sort_run s = s\<lparr>list_ls := int (k + length (take (g - k) (a # R))), list_r := r'\<rparr>"
      using run eq d by (simp add: s1_def)
    moreover have "path (hp s) (list_r s) (take (g - k) (a # R)) r'"
      using p r d by (simp add: s1_def)
    moreover have "chain (hp s) r' (drop (g - k) (a # R))"
      using c d by (simp add: s1_def)
    ultimately show ?thesis by blast
  qed
qed

lemma sort_pairs_stop: "list_l s = NULL \<Longrightarrow> sort_pairs func s = Some (Inr s)"
  by (subst sort_pairs.simps) simp

lemma sort_pairs_go:
  assumes "list_l s = Ptr a"
    and "sort_merge func (sort_run (s\<lparr>list_nm := list_nm s + 1, list_r := list_l s,
            list_ls := 0, list_rs := list_gl s\<rparr>)) = Some (Inr s2)"
  shows "sort_pairs func s = sort_pairs func (s2\<lparr>list_l := list_r s2\<rparr>)"
  using assms by (subst sort_pairs.simps) simp

lemma sort_pairs_loop:
  assumes "out_seg (hp s) (list_x s) D (list_t s)" and "chain (hp s) (list_l s) R"
    and "distinct (D @ R)" and "list_gl s = int g" and "0 < g"
  shows "\<exists>s'. sort_pairs func s = Some (Inr s')
           \<and> out_seg (hp s') (list_x s') (D @ pass_merge func g R) (list_t s')
           \<and> list_gl s' = list_gl s \<and> list_nm s' = list_nm s + int (merges g R)"
  using assms
proof (induction "length R" arbitrary: s D R rule: less_induct)
  case less
  show ?case
  proof (cases R)
    case Nil
    with less.prems have "sort_pairs func s = Some (Inr s)" by (intro sort_pairs_stop) simp
    with Nil less.prems show ?thesis by (simp add: pass_merge.simps merges.simps)
  next
    case (Cons a R')
    with less.prems have l: "list_l s = Ptr a" by simp
    define s0 where "s0 = s\<lparr>list_nm := list_nm s + 1, list_r := list_l s,
            list_ls := 0, list_rs := list_gl s\<rparr>"
    have "chain (hp s0) (list_r s0) R" "list_gl s0 = int g" "list_ls s0 = int 0" "0 \<le> g"
      using less.prems by (simp_all add: s0_def)
    from sort_run_walk [OF this] obtain r' where
      eq: "sort_run s0 = s0\<lparr>list_ls := int (length (take g R)), list_r := r'\<rparr>"
      and p: "path (hp s0) (list_r s0) (take g R) r'"
      and c: "chain (hp s0) r' (drop g R)" by auto
    define s1 where "s1 = sort_run s0"
    have s1: "s1 = s\<lparr>list_nm := list_nm s + 1, list_r := list_l s, list_ls := 0,
                    list_rs := list_gl s, list_ls := int (length (take g R)), list_r := r'\<rparr>"
      unfolding s1_def eq unfolding s0_def by (rule refl)
    define Rest where "Rest = drop (2 * g) R"
    have split: "drop g R = take g (drop g R) @ Rest"
      unfolding Rest_def by (metis append_take_drop_id drop_drop mult_2)
    have R: "R = take g R @ take g (drop g R) @ Rest"
      using split by (metis append_take_drop_id)
    have inv1: "merge_inv s1 D (take g R) (take g (drop g R)) Rest"
      unfolding merge_inv_def
    proof (intro conjI)
      show "out_seg (hp s1) (list_x s1) D (list_t s1)"
        using less.prems(1) by (simp add: s1)
      show "\<exists>q. path (hp s1) (list_l s1) (take g R) q"
        using p by (auto simp: s1 s0_def)
      show "chain (hp s1) (list_r s1) (take g (drop g R) @ Rest)"
        using c split by (simp add: s1 s0_def)
      show "distinct (D @ take g R @ take g (drop g R) @ Rest)"
        using less.prems(3) R by simp
      show "list_ls s1 = int (length (take g R))"
        by (simp add: s1)
      show "list_rs s1 = int (length (take g (drop g R)))
            \<or> Rest = [] \<and> int (length (take g (drop g R))) \<le> list_rs s1"
        using less.prems(4) by (auto simp: s1 Rest_def min_def)
    qed
    from sort_merge_loop [OF inv1, of func] obtain s2 where
      m: "sort_merge func s1 = Some (Inr s2)"
      and inv2: "merge_inv s2 (D @ run_merge func (take g R) (take g (drop g R))) [] [] Rest"
      and same: "list_gl s2 = list_gl s1" "list_nm s2 = list_nm s1" by blast
    define s3 where "s3 = s2\<lparr>list_l := list_r s2\<rparr>"
    define M where "M = run_merge func (take g R) (take g (drop g R))"
    have go: "sort_pairs func s = sort_pairs func s3"
      unfolding s3_def using l m unfolding s1_def s0_def by (rule sort_pairs_go)
    have "length Rest < length R" using Cons less.prems(5) by (simp add: Rest_def)
    moreover have "out_seg (hp s3) (list_x s3) (D @ M) (list_t s3)"
      using inv2 by (simp add: merge_inv_def s3_def M_def)
    moreover have "chain (hp s3) (list_l s3) Rest"
      using inv2 by (simp add: merge_inv_def s3_def)
    moreover have "distinct ((D @ M) @ Rest)"
      using inv2 by (simp add: merge_inv_def M_def)
    moreover have g3: "list_gl s3 = int g"
      using same less.prems(4) by (simp add: s3_def s1)
    ultimately obtain s' where
      fin: "sort_pairs func s3 = Some (Inr s')"
      and seg: "out_seg (hp s') (list_x s') ((D @ M) @ pass_merge func g Rest) (list_t s')"
      and gl: "list_gl s' = list_gl s3" and nm: "list_nm s' = list_nm s3 + int (merges g Rest)"
      using less.hyps [of Rest s3 "D @ M"] less.prems(5) by blast
    have "pass_merge func g R = M @ pass_merge func g Rest"
      using Cons less.prems(5) by (subst pass_merge.simps) (simp add: M_def Rest_def)
    moreover have "merges g R = Suc (merges g Rest)"
      using Cons less.prems(5) by (subst merges.simps) (simp add: Rest_def)
    moreover have "list_nm s3 = list_nm s + 1"
      using same by (simp add: s3_def s1)
    ultimately show ?thesis
      using go fin seg gl nm g3 less.prems(4) by simp
  qed
qed

section \<open>All passes of \<open>LIST_SORT\<close>\<close>

lemma mset_run_merge: "mset (run_merge func L R) = mset L + mset R"
  by (induction func L R rule: run_merge.induct) simp_all

lemma set_run_merge: "set (run_merge func L R) = set L \<union> set R"
  using mset_run_merge [of func L R] by (metis set_mset_mset set_mset_union)

lemma mset_pass_merge: "mset (pass_merge func g R) = mset R"
proof (induction func g R rule: pass_merge.induct)
  case (1 func g R)
  show ?case
  proof (cases "g = 0 \<or> R = []")
    case True
    then show ?thesis by (subst pass_merge.simps) simp
  next
    case False
    have "mset R = mset (take g R) + mset (drop g R)"
      by (metis append_take_drop_id mset_append)
    also have "mset (drop g R) = mset (take g (drop g R)) + mset (drop g (drop g R))"
      by (metis append_take_drop_id mset_append)
    also have "drop g (drop g R) = drop (2 * g) R" by (simp add: mult_2)
    finally have "mset R = mset (take g R) + (mset (take g (drop g R)) + mset (drop (2 * g) R))" .
    with False 1 show ?thesis
      by (subst pass_merge.simps) (simp add: mset_run_merge)
  qed
qed

lemma length_pass_merge: "length (pass_merge func g R) = length R"
  using mset_pass_merge [of func g R] by (metis size_mset)

lemma mset_all_passes: "mset (all_passes func n g R) = mset R"
proof (induction func n g R rule: all_passes.induct)
  case (1 func n g R)
  then show ?case by (subst all_passes.simps) (simp add: mset_pass_merge)
qed

lemma mset_sort_spec: "mset (sort_spec func xs) = mset xs"
  by (simp add: sort_spec_def mset_all_passes)

lemma merges_gt1: "0 < g \<Longrightarrow> (1 < merges g R) = (2 * g < length R)"
proof -
  assume g: "0 < g"
  have zero: "merges g X = 0 \<longleftrightarrow> X = []" for X :: "'a list"
    using g by (subst merges.simps) simp
  show ?thesis
  proof (cases R)
    case Nil
    then show ?thesis by (subst merges.simps) simp
  next
    case (Cons a R')
    then have "merges g R = Suc (merges g (drop (2 * g) R))"
      using g by (subst merges.simps) simp
    then show ?thesis using zero [of "drop (2 * g) R"] by auto
  qed
qed

lemma out_seg_close:
  assumes "out_seg h x D t" and "D \<noteq> []" and "distinct D"
  shows "t = Ptr (last D) \<and> chain (h(last D := NULL)) x D"
proof -
  define d where "d = last D"
  from assms have t: "t = Ptr d" and p: "path h x (butlast D) (Ptr d)"
    by (simp_all add: out_seg_def d_def)
  have D: "D = butlast D @ [d]" using assms(2) by (simp add: d_def)
  with assms(3) have dn: "d \<notin> set (butlast D)"
    by (metis distinct_append distinct.simps(2) disjoint_iff list.set_intros(1))
  define h' where "h' = h(d := NULL)"
  have "path h' x (butlast D) (Ptr d)"
    unfolding h'_def path_upd [OF dn] by (rule p)
  moreover have "path h' (Ptr d) [d] NULL" by (simp add: h'_def)
  ultimately have "path h' x (butlast D @ [d]) NULL"
    unfolding path_append by blast
  with D have "chain h' x D" by (simp add: chain_path)
  with t show ?thesis by (simp add: h'_def d_def)
qed

lemma sort_passes_loop:
  assumes "chain (hp s) (list_x s) R" and "g < length R" and "list_gl s = int g" and "0 < g"
  shows "\<exists>s'. sort_passes func s = Some (Inr s')
           \<and> chain (hp s') (list_x s') (all_passes func (length R) g R)
           \<and> list_gl s' < 2 * int (length R)"
  using assms
proof (induction "length R - g" arbitrary: s g R rule: less_induct)
  case less
  define s0 where "s0 = s\<lparr>list_nm := 0, list_l := list_x s, list_t := NULL, list_x := NULL\<rparr>"
  define P where "P = pass_merge func g R"
  have dR: "distinct R" using less.prems(1) by (rule chain_distinct)
  have "out_seg (hp s0) (list_x s0) [] (list_t s0)" "chain (hp s0) (list_l s0) R"
    "distinct ([] @ R)" "list_gl s0 = int g"
    using less.prems dR by (simp_all add: s0_def out_seg_def)
  from sort_pairs_loop [OF this less.prems(4), of func] obtain s1 where
    pairs: "sort_pairs func s0 = Some (Inr s1)"
    and seg: "out_seg (hp s1) (list_x s1) P (list_t s1)"
    and gl1: "list_gl s1 = int g" and nm1: "list_nm s1 = int (merges g R)"
    using less.prems(3) by (auto simp: s0_def P_def)
  have mP: "mset P = mset R" by (simp add: P_def mset_pass_merge)
  then have lenP: "length P = length R" by (metis size_mset)
  with less.prems(2) have neP: "P \<noteq> []" by auto
  from mP dR have dP: "distinct P" by (metis mset_eq_imp_distinct_iff)
  from out_seg_close [OF seg neP dP]
  have t1: "list_t s1 = Ptr (last P)" and ch: "chain ((hp s1)(last P := NULL)) (list_x s1) P"
    by simp_all
  define s2 where "s2 = s1\<lparr>hp := (hp s1)(last P := NULL), list_gl := list_gl s1 * 2\<rparr>"
  have unfold: "sort_passes func s =
      (if list_nm s2 > 1 then sort_passes func s2 else Some (Inr s2))"
    using pairs t1 by (subst sort_passes.simps) (simp add: s0_def s2_def Let_def)
  have nm2: "(list_nm s2 > 1) = (2 * g < length R)"
    using merges_gt1 [OF less.prems(4), of R] nm1 by (simp add: s2_def)
  have ch2: "chain (hp s2) (list_x s2) P" using ch by (simp add: s2_def)
  have gl2: "list_gl s2 = 2 * int g" using gl1 by (simp add: s2_def)
  show ?case
  proof (cases "2 * g < length R")
    case False
    with unfold nm2 have "sort_passes func s = Some (Inr s2)" by simp
    moreover have "all_passes func (length R) g R = P"
      using False by (subst all_passes.simps) (simp add: P_def)
    ultimately show ?thesis using ch2 gl2 less.prems(2) by simp
  next
    case True
    with unfold nm2 have "sort_passes func s = sort_passes func s2" by simp
    moreover have "all_passes func (length R) g R = all_passes func (length P) (2 * g) P"
      using True less.prems(4) lenP by (subst all_passes.simps) (simp add: P_def)
    moreover have "length P - 2 * g < length R - g" using True lenP less.prems(4) by simp
    moreover have "list_gl s2 = int (2 * g)" using gl2 by simp
    moreover have "0 < 2 * g" using less.prems(4) by simp
    moreover have "2 * g < length P" using True lenP by simp
    ultimately show ?thesis
      using less.hyps [of P "2 * g" s2] ch2 lenP by simp
  qed
qed

lemma LIST_SORT_refines:
  assumes "chain h (list_fst list) xs"
  shows "\<exists>h' list'. LIST_SORT func h list = Some (Inr (h', list'))
           \<and> chain h' (list_fst list') (sort_spec func xs)"
proof (cases xs)
  case Nil
  with assms show ?thesis by (simp add: LIST_SORT_def sort_spec_def)
next
  case (Cons a as)
  note xs = Cons
  show ?thesis
  proof (cases as)
    case Nil
    with xs assms show ?thesis by (simp add: LIST_SORT_def sort_spec_def)
  next
    case (Cons b bs)
    define s where "s = \<lparr>hp = h, list_gl = 1, list_nm = 0, list_ls = 0, list_rs = 0,
                     list_l = NULL, list_r = NULL, list_t = NULL, list_n = NULL,
                     list_x = Ptr a\<rparr>"
    have "chain (hp s) (list_x s) xs" "1 < length xs" "list_gl s = int 1" "0 < (1::nat)"
      using assms xs Cons by (simp_all add: s_def)
    from sort_passes_loop [OF this, of func] obtain s' where
      "sort_passes func s = Some (Inr s')"
      "chain (hp s') (list_x s') (all_passes func (length xs) 1 xs)" by blast
    moreover have "list_fst list = Ptr a" "h a = Ptr b" using assms xs Cons by simp_all
    moreover have "sort_spec func xs = all_passes func (length xs) 1 xs"
      using xs Cons by (simp add: sort_spec_def)
    ultimately show ?thesis by (simp add: LIST_SORT_def s_def)
  qed
qed

section \<open>The result of \<open>LIST_SORT\<close>\<close>

lemma sorted_wrt_short: "length xs \<le> 1 \<Longrightarrow> sorted_wrt P xs"
  by (cases xs) auto

lemma sorted_nondecreasing: "sorted_wrt (precedes func) xs \<Longrightarrow> nondecreasing func xs"
  by (induction func xs rule: nondecreasing.induct) (auto simp: precedes_def)

lemma sorted_run_merge:
  assumes "cmp_contract func (L @ R)"
    and "sorted_wrt (precedes func) L" and "sorted_wrt (precedes func) R"
  shows "sorted_wrt (precedes func) (run_merge func L R)"
  using assms
proof (induction func L R rule: run_merge.induct)
  case (1 func R)
  then show ?case by simp
next
  case (2 func a L)
  then show ?case by simp
next
  case (3 func a L b R)
  note con = "3.prems"(1)
  have ain: "a \<in> set ((a # L) @ b # R)" and bin: "b \<in> set ((a # L) @ b # R)" by simp_all
  show ?case
  proof (cases "func (Ptr a) (Ptr b) < 0")
    case True
    have sub: "cmp_contract func (L @ b # R)"
      using con by (rule cmp_contract_subset) auto
    have rec: "sorted_wrt (precedes func) (run_merge func L (b # R))"
      using "3.IH"(1) [OF True sub] "3.prems" by simp
    have "precedes func a y" if y: "y \<in> set L \<union> set (b # R)" for y
    proof (cases "y \<in> set L")
      case True
      with "3.prems"(2) show ?thesis by simp
    next
      case False
      with y have yR: "y \<in> set (b # R)" by simp
      have ab: "func (Ptr a) (Ptr b) \<le> 0" using True by simp
      have "func (Ptr b) (Ptr y) \<le> 0"
      proof (cases "y = b")
        case True
        then show ?thesis using cmp_contract_refl [OF con bin] by simp
      next
        case False
        with yR "3.prems"(3) show ?thesis by (auto simp: precedes_def)
      qed
      with ab show ?thesis
        unfolding precedes_def using cmp_contract_trans [OF con ain bin, of y] yR by auto
    qed
    with rec True show ?thesis by (simp add: set_run_merge)
  next
    case False
    have sub: "cmp_contract func ((a # L) @ R)"
      using con by (rule cmp_contract_subset) auto
    have rec: "sorted_wrt (precedes func) (run_merge func (a # L) R)"
      using "3.IH"(2) [OF False sub] "3.prems" by simp
    have ba: "func (Ptr b) (Ptr a) \<le> 0"
    proof (rule ccontr)
      assume "\<not> func (Ptr b) (Ptr a) \<le> 0"
      then have "0 < func (Ptr b) (Ptr a)" by simp
      from cmp_contract_anti [OF con bin ain this] False show False by simp
    qed
    have "precedes func b y" if y: "y \<in> set (a # L) \<union> set R" for y
    proof (cases "y \<in> set R")
      case True
      with "3.prems"(3) show ?thesis by simp
    next
      case False
      with y have yL: "y \<in> set (a # L)" by simp
      have "func (Ptr a) (Ptr y) \<le> 0"
      proof (cases "y = a")
        case True
        then show ?thesis using cmp_contract_refl [OF con ain] by simp
      next
        case False
        with yL "3.prems"(2) show ?thesis by (auto simp: precedes_def)
      qed
      with ba show ?thesis
        unfolding precedes_def using cmp_contract_trans [OF con bin ain, of y] yL by auto
    qed
    with rec False show ?thesis by (simp add: set_run_merge)
  qed
qed

lemma runs_sorted_drop:
  assumes "runs_sorted func g R"
  shows "runs_sorted func g (drop (2 * g) R)"
  unfolding runs_sorted_def
proof
  fix k
  have "k * g + 2 * g = (k + 2) * g" by (simp add: algebra_simps)
  then have "drop (k * g) (drop (2 * g) R) = drop ((k + 2) * g) R"
    by (simp only: drop_drop)
  with assms show "sorted_wrt (precedes func) (take g (drop (k * g) (drop (2 * g) R)))"
    unfolding runs_sorted_def by metis
qed

lemma pass_merge_runs:
  assumes "0 < g" and "cmp_contract func R" and "runs_sorted func g R"
  shows "runs_sorted func (2 * g) (pass_merge func g R)"
  using assms
proof (induction func g R rule: pass_merge.induct)
  case (1 func g R)
  show ?case
  proof (cases "R = []")
    case True
    then have "pass_merge func g R = []" by (subst pass_merge.simps) simp
    then show ?thesis by (simp add: runs_sorted_def)
  next
    case False
    define M where "M = run_merge func (take g R) (take g (drop g R))"
    define P' where "P' = pass_merge func g (drop (2 * g) R)"
    have pm: "pass_merge func g R = M @ P'"
      using False "1.prems"(1) by (subst pass_merge.simps) (simp add: M_def P'_def)
    have "cmp_contract func (drop (2 * g) R)"
      using "1.prems"(2) by (rule cmp_contract_subset) (rule set_drop_subset)
    with "1.IH" False "1.prems" have rec: "runs_sorted func (2 * g) P'"
      by (simp add: P'_def runs_sorted_drop)
    have "sorted_wrt (precedes func) (take g (drop (0 * g) R))"
      "sorted_wrt (precedes func) (take g (drop (1 * g) R))"
      using "1.prems"(3) unfolding runs_sorted_def by blast+
    moreover have "cmp_contract func (take g R @ take g (drop g R))"
      using "1.prems"(2)
      by (rule cmp_contract_subset) (auto dest: in_set_takeD in_set_dropD)
    ultimately have sM: "sorted_wrt (precedes func) M"
      unfolding M_def by (intro sorted_run_merge) simp_all
    have "size (mset M) = size (mset (take g R)) + size (mset (take g (drop g R)))"
      unfolding M_def mset_run_merge by simp
    then have "length M = min g (length R) + min g (length R - g)"
      by simp
    then have lenM: "length M = min (2 * g) (length R)"
      by arith
    have short: "P' = []" if "length R < 2 * g"
      using that by (simp add: P'_def pass_merge.simps)
    show ?thesis
      unfolding runs_sorted_def pm
    proof
      fix k
      show "sorted_wrt (precedes func) (take (2 * g) (drop (k * (2 * g)) (M @ P')))"
      proof (cases "length R < 2 * g")
        case True
        with short have P': "P' = []" by simp
        show ?thesis
        proof (cases k)
          case 0
          with P' sM show ?thesis by (simp add: sorted_wrt_take)
        next
          case (Suc j)
          with P' lenM True show ?thesis by simp
        qed
      next
        case False
        with lenM have len: "length M = 2 * g" by simp
        show ?thesis
        proof (cases k)
          case 0
          with len sM show ?thesis by simp
        next
          case (Suc j)
          then have "drop (k * (2 * g)) (M @ P') = drop (j * (2 * g)) P'"
            using len by simp
          with rec show ?thesis unfolding runs_sorted_def by simp
        qed
      qed
    qed
  qed
qed

lemma all_passes_sorted:
  assumes "0 < g" and "cmp_contract func R" and "runs_sorted func g R" and "n = length R"
  shows "sorted_wrt (precedes func) (all_passes func n g R)"
  using assms
proof (induction func n g R rule: all_passes.induct)
  case (1 func n g R)
  have rs: "runs_sorted func (2 * g) (pass_merge func g R)"
    using "1.prems"(1-3) by (rule pass_merge_runs)
  have len: "n = length (pass_merge func g R)"
    using "1.prems"(4) by (simp only: length_pass_merge)
  have "set (pass_merge func g R) = set R"
    by (rule mset_eq_setD) (rule mset_pass_merge)
  with "1.prems"(2) have con: "cmp_contract func (pass_merge func g R)"
    by (rule cmp_contract_set)
  show ?case
  proof (cases "0 < g \<and> 2 * g < n")
    case True
    then have "0 < 2 * g" by simp
    from "1.IH" [OF True this con rs len]
    have "sorted_wrt (precedes func) (all_passes func n (2 * g) (pass_merge func g R))" .
    moreover have "all_passes func n g R = all_passes func n (2 * g) (pass_merge func g R)"
      by (subst all_passes.simps) (simp only: True if_True simp_thms)
    ultimately show ?thesis by (simp only:)
  next
    case False
    then have eq: "all_passes func n g R = pass_merge func g R"
      by (subst all_passes.simps) (simp only: if_False simp_thms)
    from rs have "sorted_wrt (precedes func)
        (take (2 * g) (drop (0 * (2 * g)) (pass_merge func g R)))"
      unfolding runs_sorted_def by blast
    then have "sorted_wrt (precedes func) (take (2 * g) (pass_merge func g R))"
      by simp
    moreover from False "1.prems"(1) have "n \<le> 2 * g" by simp
    then have "length (pass_merge func g R) \<le> 2 * g"
      unfolding len .
    then have "take (2 * g) (pass_merge func g R) = pass_merge func g R"
      by (rule take_all)
    ultimately have "sorted_wrt (precedes func) (pass_merge func g R)" by (simp only:)
    with eq show ?thesis by (simp only:)
  qed
qed

lemma sort_spec_sorted:
  assumes "cmp_contract func xs"
  shows "sorted_wrt (precedes func) (sort_spec func xs)"
proof (cases "length xs < 2")
  case True
  then have "length xs \<le> 1" by simp
  then have "sorted_wrt (precedes func) xs" by (rule sorted_wrt_short)
  with True show ?thesis by (simp add: sort_spec_def)
next
  case False
  have "runs_sorted func 1 xs"
    unfolding runs_sorted_def
  proof
    fix k
    have "length (take 1 (drop (k * 1) xs)) \<le> 1" by simp
    then show "sorted_wrt (precedes func) (take 1 (drop (k * 1) xs))"
      by (rule sorted_wrt_short)
  qed
  with assms have "sorted_wrt (precedes func) (all_passes func (length xs) 1 xs)"
    by (intro all_passes_sorted) simp_all
  with False show ?thesis by (simp add: sort_spec_def)
qed

text \<open>
  C9. For every chain \<open>xs\<close> and every comparator, obeying the contract or not,
  \<open>LIST_SORT\<close> returns without a failure, and the list is then a chain \<open>ys\<close>, finite and
  ending in \<open>NULL\<close>, with the same elements as \<open>xs\<close>, each of them once.
\<close>

theorem sort_permutes:
  assumes "chain h (list_fst list) xs"
  shows "\<exists>h' list' ys. LIST_SORT func h list = Some (Inr (h', list'))
           \<and> chain h' (list_fst list') ys \<and> mset ys = mset xs \<and> distinct ys"
proof -
  from LIST_SORT_refines [OF assms, of func] obtain h' list' where
    r: "LIST_SORT func h list = Some (Inr (h', list'))"
    and c: "chain h' (list_fst list') (sort_spec func xs)" by blast
  from c have "distinct (sort_spec func xs)" by (rule chain_distinct)
  with r c show ?thesis using mset_sort_spec by blast
qed

theorem sort_permutes_witness:
  "\<exists>h' list' ys.
      LIST_SORT (\<lambda>p q. 1) (links_of [0, 1, 2, 3, 4]) \<lparr>list_fst = Ptr (0::nat)\<rparr>
        = Some (Inr (h', list'))
      \<and> chain h' (list_fst list') ys \<and> mset ys = mset [0, 1, 2, 3, 4] \<and> distinct ys"
proof -
  have "chain (links_of [0, 1, 2, 3, 4]) (list_fst \<lparr>list_fst = Ptr (0::nat)\<rparr>) [0, 1, 2, 3, 4]"
    by simp
  then show ?thesis by (rule sort_permutes)
qed

text \<open>
  C1. For every chain \<open>xs\<close>, of any length and in any order, and every comparator that
  obeys the contract on \<open>xs\<close>, \<open>LIST_SORT\<close> returns and the list is then a chain \<open>ys\<close> in
  which every adjacent pair \<open>(a, b)\<close> has \<open>func(a, b) <= 0\<close>.
\<close>

theorem sort_is_nondecreasing:
  assumes "chain h (list_fst list) xs" and "cmp_contract func xs"
  shows "\<exists>h' list' ys. LIST_SORT func h list = Some (Inr (h', list'))
           \<and> chain h' (list_fst list') ys \<and> nondecreasing func ys"
proof -
  from LIST_SORT_refines [OF assms(1), of func] obtain h' list' where
    "LIST_SORT func h list = Some (Inr (h', list'))"
    "chain h' (list_fst list') (sort_spec func xs)" by blast
  moreover have "nondecreasing func (sort_spec func xs)"
    using assms(2) by (intro sorted_nondecreasing sort_spec_sorted)
  ultimately show ?thesis by blast
qed

theorem sort_is_nondecreasing_witness:
  "\<exists>h' list' ys.
      LIST_SORT (key_cmp (\<lambda>a. [5, 3, 3, 1, 4, 2, 0] ! a)) (links_of [0, 1, 2, 3, 4, 5, 6])
          \<lparr>list_fst = Ptr (0::nat)\<rparr> = Some (Inr (h', list'))
      \<and> chain h' (list_fst list') ys
      \<and> nondecreasing (key_cmp (\<lambda>a. [5, 3, 3, 1, 4, 2, 0] ! a)) ys"
proof -
  have "chain (links_of [0, 1, 2, 3, 4, 5, 6]) (list_fst \<lparr>list_fst = Ptr (0::nat)\<rparr>)
      [0, 1, 2, 3, 4, 5, 6]" by simp
  moreover have "cmp_contract (key_cmp (\<lambda>a. [5, 3, 3, 1, 4, 2, 0] ! a)) [0::nat, 1, 2, 3, 4, 5, 6]"
    by (auto simp: cmp_contract_def key_cmp_def)
  ultimately show ?thesis by (rule sort_is_nondecreasing)
qed

text \<open>
  C3. The comment of \<open>LIST_SORT\<close> calls the sort stable, and a stable sort leaves a sorted
  chain as it is. The chain \<open>[0, 1]\<close> of two elements that compare equal is sorted, and
  \<open>LIST_SORT\<close> returns it as \<open>[1, 0]\<close>.
\<close>

theorem sort_swaps_equal_elements:
  "chain (links_of [0::nat, 1]) (Ptr 0) [0, 1]
   \<and> nondecreasing (key_cmp (\<lambda>_. 0)) [0::nat, 1]
   \<and> (case LIST_SORT (key_cmp (\<lambda>_. 0)) (links_of [0::nat, 1]) \<lparr>list_fst = Ptr 0\<rparr> of
        Some (Inr (h', list')) \<Rightarrow> chain h' (list_fst list') [1, 0]
      | _ \<Rightarrow> False)"
  by code_simp

text \<open>
  What does hold: a chain that is strictly sorted, with \<open>func(a, b) < 0\<close> for every element
  \<open>a\<close> before an element \<open>b\<close>, is returned by \<open>LIST_SORT\<close> as it is.
\<close>

lemma run_merge_strict:
  "(\<forall>a\<in>set L. \<forall>b\<in>set R. func (Ptr a) (Ptr b) < 0) \<Longrightarrow> run_merge func L R = L @ R"
proof (induction L)
  case Nil
  then show ?case by simp
next
  case (Cons a L)
  then show ?case by (cases R) auto
qed

lemma pass_merge_strict:
  assumes "sorted_wrt (\<lambda>a b. func (Ptr a) (Ptr b) < 0) R"
  shows "pass_merge func g R = R"
  using assms
proof (induction func g R rule: pass_merge.induct)
  case (1 func g R)
  show ?case
  proof (cases "g = 0 \<or> R = []")
    case True
    then show ?thesis by (subst pass_merge.simps) simp
  next
    case False
    let ?lt = "\<lambda>a b. func (Ptr a) (Ptr b) < 0"
    have split: "R = take g R @ take g (drop g R) @ drop (2 * g) R"
      by (metis append_take_drop_id drop_drop mult_2)
    with "1.prems" have s: "sorted_wrt ?lt (take g R @ take g (drop g R) @ drop (2 * g) R)"
      by simp
    then have "\<forall>a\<in>set (take g R). \<forall>b\<in>set (take g (drop g R)). func (Ptr a) (Ptr b) < 0"
      unfolding sorted_wrt_append by auto
    then have m: "run_merge func (take g R) (take g (drop g R)) = take g R @ take g (drop g R)"
      by (rule run_merge_strict)
    from s have "sorted_wrt ?lt (drop (2 * g) R)"
      unfolding sorted_wrt_append by blast
    with "1.IH" False have "pass_merge func g (drop (2 * g) R) = drop (2 * g) R" by simp
    with False m have "pass_merge func g R = take g R @ take g (drop g R) @ drop (2 * g) R"
      by (subst pass_merge.simps) simp
    with split show ?thesis by simp
  qed
qed

lemma all_passes_strict:
  assumes "sorted_wrt (\<lambda>a b. func (Ptr a) (Ptr b) < 0) R"
  shows "all_passes func n g R = R"
  using assms
proof (induction func n g R rule: all_passes.induct)
  case (1 func n g R)
  have p: "pass_merge func g R = R" using "1.prems" by (rule pass_merge_strict)
  show ?case
  proof (cases "0 < g \<and> 2 * g < n")
    case True
    with "1.IH" "1.prems" p have "all_passes func n (2 * g) R = R" by simp
    with True p show ?thesis by (subst all_passes.simps) simp
  next
    case False
    with p show ?thesis by (subst all_passes.simps) auto
  qed
qed

lemma sort_keeps_strictly_sorted:
  assumes "chain h (list_fst list) xs" and "sorted_wrt (\<lambda>a b. func (Ptr a) (Ptr b) < 0) xs"
  shows "\<exists>h' list'. LIST_SORT func h list = Some (Inr (h', list'))
           \<and> chain h' (list_fst list') xs"
proof -
  have "sort_spec func xs = xs"
    using assms(2) by (simp add: sort_spec_def all_passes_strict)
  with LIST_SORT_refines [OF assms(1), of func] show ?thesis by simp
qed

section \<open>\<open>LIST_UNIQUE\<close>\<close>

text \<open>
  C4. \<open>LIST_UNIQUE\<close> steps \<open>_list_g\<close> forward after a removal too. On the chain \<open>[0, 1]\<close>
  of two equal elements it removes \<open>1\<close>, steps to \<open>NULL\<close> and reads the link of \<open>NULL\<close>. On
  the chain \<open>[0, 1, 2]\<close> of three equal elements it removes \<open>1\<close>, steps over \<open>2\<close> and
  leaves \<open>[0, 2]\<close>: two representatives of one class, after one call of the cleanup.
\<close>

theorem unique_skips_after_removal:
  "LIST_UNIQUE (key_cmp (\<lambda>_. 0)) log_clean
       \<lparr>links = links_of [0::nat, 1], user = []\<rparr> \<lparr>list_fst = Ptr 0\<rparr>
     = Some (Inl NullDeref)
   \<and> (case LIST_UNIQUE (key_cmp (\<lambda>_. 0)) log_clean
             \<lparr>links = links_of [0::nat, 1, 2], user = []\<rparr> \<lparr>list_fst = Ptr 0\<rparr> of
        Some (Inr w) \<Rightarrow> chain (links w) (Ptr 0) [0, 2] \<and> user w = [(1, Ptr 2)]
      | _ \<Rightarrow> False)"
  by (simp add: LIST_UNIQUE_def unique_outer.simps unique_inner.simps LIST_NXT_def
      LIST_REMOVE_def call_clean_def log_clean_def key_cmp_def)

section \<open>\<open>LIST_TAKE\<close>\<close>

text \<open>
  C6. \<open>LIST_TAKE\<close> with \<open>n = 2\<close> on the chain \<open>[0]\<close>, and with \<open>n = 1\<close> on the empty list,
  walks \<open>_list_f\<close> to \<open>NULL\<close> and reads the link of \<open>NULL\<close>. With \<open>n = 0\<close> on the chain
  \<open>[0, 1]\<close> it keeps the element \<open>0\<close> and removes only \<open>1\<close>.
\<close>

theorem take_beyond_the_chain:
  "LIST_TAKE log_clean 2 \<lparr>links = links_of [0::nat], user = []\<rparr> \<lparr>list_fst = Ptr 0\<rparr>
     = Some (Inl NullDeref)
   \<and> LIST_TAKE log_clean 1 \<lparr>links = links_of ([]::nat list), user = []\<rparr> \<lparr>list_fst = NULL\<rparr>
     = Some (Inl NullDeref)
   \<and> (case LIST_TAKE log_clean 0 \<lparr>links = links_of [0::nat, 1], user = []\<rparr>
             \<lparr>list_fst = Ptr 0\<rparr> of
        Some (Inr w) \<Rightarrow> chain (links w) (Ptr 0) [0] \<and> user w = [(1, NULL)]
      | _ \<Rightarrow> False)"
  by (simp add: LIST_TAKE_def take_rest.simps LIST_NXT_def
      LIST_REMOVE_def call_clean_def log_clean_def)

text \<open>
  What does hold: on a non-empty chain \<open>xs\<close> and for \<open>n\<close> up to the length of \<open>xs\<close>,
  \<open>LIST_TAKE\<close> returns, keeps the first \<open>max 1 n\<close> elements and hands the others to the
  cleanup callback, one call each, in list order, each with its link as it was.
\<close>

lemma take_walk_chain:
  "chain h p xs \<Longrightarrow>
     take_walk h n p i = (if nat (n - i) < length xs then Ptr (xs ! nat (n - i)) else NULL)"
proof (induction xs arbitrary: p i)
  case Nil
  then show ?case by simp
next
  case (Cons a xs)
  then have p: "p = Ptr a" and tl: "chain h (h a) xs" by simp_all
  show ?case
  proof (cases "i < n")
    case False
    with p show ?thesis by simp
  next
    case True
    then have "nat (n - i) = Suc (nat (n - (i + 1)))" by simp
    with True p Cons.IH [OF tl, of "i + 1"] show ?thesis by simp
  qed
qed

lemma chain_drop:
  "chain h p xs \<Longrightarrow> j < length xs \<Longrightarrow>
     path h p (take j xs) (Ptr (xs ! j)) \<and> chain h (Ptr (xs ! j)) (drop j xs)"
proof (induction xs arbitrary: p j)
  case Nil
  then show ?case by simp
next
  case (Cons a xs)
  show ?case
  proof (cases j)
    case 0
    with Cons.prems show ?thesis by simp
  next
    case (Suc j')
    with Cons.prems Cons.IH [of "h a" j'] show ?thesis by simp
  qed
qed

lemma take_rest_chain:
  "chain (links w) (Ptr f) (f # rest) \<Longrightarrow>
     take_rest log_clean w (Ptr f) =
       Some (Inr (w\<lparr>links := (links w)(f := NULL),
                     user := user w @ map (\<lambda>e. (e, links w e)) rest\<rparr>))"
proof (induction rest arbitrary: w)
  case Nil
  then have "links w f = NULL" by simp
  then have "(links w)(f := NULL) = links w" by (simp add: fun_upd_idem)
  with Nil show ?case
    by (subst take_rest.simps) (simp add: LIST_NXT_def)
next
  case (Cons e rest)
  then have fe: "links w f = Ptr e" and tl: "chain (links w) (links w e) rest" by simp_all
  from Cons.prems have "distinct (f # e # rest)" by (rule chain_distinct)
  then have ne: "e \<noteq> f" and fr: "f \<notin> set rest" by auto
  define w1 where "w1 = w\<lparr>links := (links w)(f := links w e),
      user := user w @ [(e, links w e)]\<rparr>"
  have rm: "LIST_REMOVE log_clean w (Ptr f) = Inr w1"
    using fe ne by (simp add: LIST_REMOVE_def call_clean_def log_clean_def w1_def)
  have "chain ((links w)(f := links w e)) (links w e) rest"
    using tl fr chain_upd [of f rest "links w" "links w e" "links w e"] by blast
  then have "chain (links w1) (Ptr f) (f # rest)" by (simp add: w1_def)
  from Cons.IH [OF this] have run1:
    "take_rest log_clean w1 (Ptr f) =
       Some (Inr (w1\<lparr>links := (links w1)(f := NULL),
                      user := user w1 @ map (\<lambda>x. (x, links w1 x)) rest\<rparr>))" .
  have e1: "(links w1)(f := NULL) = (links w)(f := NULL)" by (simp add: w1_def)
  have e2: "map (\<lambda>x. (x, links w1 x)) rest = map (\<lambda>x. (x, links w x)) rest"
  proof (rule map_cong [OF refl])
    fix x assume "x \<in> set rest"
    with fr have "x \<noteq> f" by auto
    then show "(x, links w1 x) = (x, links w x)" by (simp add: w1_def)
  qed
  have e3: "user w1 @ map (\<lambda>x. (x, links w x)) rest
            = user w @ map (\<lambda>x. (x, links w x)) (e # rest)"
    by (simp add: w1_def)
  have e4: "w1\<lparr>links := (links w)(f := NULL),
               user := user w @ map (\<lambda>x. (x, links w x)) (e # rest)\<rparr>
            = w\<lparr>links := (links w)(f := NULL),
                user := user w @ map (\<lambda>x. (x, links w x)) (e # rest)\<rparr>"
    by (simp add: w1_def)
  have "take_rest log_clean w (Ptr f) = take_rest log_clean w1 (Ptr f)"
    using fe rm by (subst take_rest.simps) (simp add: LIST_NXT_def)
  also note run1
  finally show ?case unfolding e1 e2 e3 e4 .
qed

lemma LIST_TAKE_in_range:
  assumes ch: "chain (links w) (list_fst list) xs" and ne: "xs \<noteq> []"
    and n: "n \<le> int (length xs)"
  shows "\<exists>w'. LIST_TAKE log_clean n w list = Some (Inr w')
           \<and> chain (links w') (list_fst list) (take (max 1 (nat n)) xs)
           \<and> user w' = user w @ map (\<lambda>e. (e, links w e)) (drop (max 1 (nat n)) xs)"
proof -
  define k where "k = max 1 (nat n)"
  define j where "j = k - 1"
  from ne have "0 < length xs" by simp
  with n have j: "j < length xs" "nat (n - 1) = j" "k = Suc j"
    unfolding j_def k_def by arith+
  define f where "f = xs ! j"
  have walk: "take_walk (links w) n (list_fst list) 1 = Ptr f"
    using take_walk_chain [OF ch, of n 1] j by (simp add: f_def)
  from chain_drop [OF ch j(1)] have pre: "path (links w) (list_fst list) (take j xs) (Ptr f)"
    and suf: "chain (links w) (Ptr f) (drop j xs)" by (simp_all add: f_def)
  have dj: "drop j xs = f # drop k xs"
    using j by (simp add: f_def Cons_nth_drop_Suc)
  define w' where "w' = w\<lparr>links := (links w)(f := NULL),
      user := user w @ map (\<lambda>e. (e, links w e)) (drop k xs)\<rparr>"
  have run: "LIST_TAKE log_clean n w list = Some (Inr w')"
    using take_rest_chain [of w f "drop k xs"] suf dj walk
    by (simp add: LIST_TAKE_def w'_def)
  have tk: "take k xs = take j xs @ [f]"
    using j by (simp add: f_def take_Suc_conv_app_nth)
  from ch have "distinct xs" by (rule chain_distinct)
  then have fn: "f \<notin> set (take j xs)"
    using j(1) by (metis append_take_drop_id disjoint_iff distinct_append dj list.set_intros(1))
  have "path ((links w)(f := NULL)) (list_fst list) (take j xs) (Ptr f)"
    unfolding path_upd [OF fn] by (rule pre)
  moreover have "path ((links w)(f := NULL)) (Ptr f) [f] NULL" by simp
  ultimately have "path ((links w)(f := NULL)) (list_fst list) (take j xs @ [f]) NULL"
    unfolding path_append by blast
  then have "chain (links w') (list_fst list) (take k xs)"
    by (simp add: chain_path tk w'_def)
  with run show ?thesis by (auto simp: w'_def k_def)
qed

end
